theory Spec2Isabelle
  imports Main
begin

section \<open>Python values used by the ingestion pipeline\<close>

text \<open>
  A Python \<open>str\<close> is modelled as a \<open>string\<close>: a list of characters whose code
  points lie below 256, so that \<open>length\<close> is Python's \<open>len\<close>. Exceptions are
  values of \<open>error\<close>; a function that can raise returns \<open>error + 'a\<close>. What a
  collaborator outside the repository raises is a \<open>raised\<close>: \<open>Exc\<close> is an instance of
  \<open>Exception\<close>, \<open>BaseExc\<close> one of \<open>BaseException\<close> only (\<open>KeyboardInterrupt\<close>,
  \<open>SystemExit\<close>); both carry the exception's text. A metadata value is a \<open>pyval\<close>:
  \<open>None\<close>, a \<open>str\<close>, an \<open>int\<close> or a \<open>bool\<close>; other kinds of value are not modelled.
\<close>

datatype raised = Exc string | BaseExc string

datatype error =
    ValueError
  | AttributeError
  | IndexError
  | AssertionError "nat list"
  | Raised raised

datatype pyval = PNone | PStr string | PInt int | PBool bool

record document =
  page_content :: string
  metadata :: "string \<rightharpoonup> pyval"

definition Document :: "string \<Rightarrow> (string \<rightharpoonup> pyval) \<Rightarrow> document" where
  "Document content md = \<lparr>page_content = content, metadata = md\<rparr>"

subsection \<open>\<open>range\<close>, slices and \<open>str.strip\<close>\<close>

function range_up :: "int \<Rightarrow> int \<Rightarrow> int \<Rightarrow> int list" where
  "range_up i stop step =
     (if 0 < step \<and> i < stop then i # range_up (i + step) stop step else [])"
  by pat_completeness auto
termination
  by (relation "measure (\<lambda>(i, stop, step). nat (stop - i))") auto

function range_down :: "int \<Rightarrow> int \<Rightarrow> int \<Rightarrow> int list" where
  "range_down i stop step =
     (if step < 0 \<and> stop < i then i # range_down (i + step) stop step else [])"
  by pat_completeness auto
termination
  by (relation "measure (\<lambda>(i, stop, step). nat (i - stop))") auto

declare range_up.simps [simp del]
declare range_down.simps [simp del]

definition py_range :: "int \<Rightarrow> int \<Rightarrow> int \<Rightarrow> error + int list" where
  \<comment> \<open>\<open>range(start, stop, step)\<close>: a zero step raises \<open>ValueError\<close>.\<close>
  "py_range start stop step =
     (if step = 0 then Inl ValueError
      else if 0 < step then Inr (range_up start stop step)
      else Inr (range_down start stop step))"

definition slice_index :: "int \<Rightarrow> nat \<Rightarrow> nat" where
  \<comment> \<open>A slice bound: negative bounds count from the end, all bounds are clamped.\<close>
  "slice_index i n = (if i < 0 then nat (max 0 (i + int n)) else min (nat i) n)"

definition py_slice :: "'a list \<Rightarrow> int \<Rightarrow> int \<Rightarrow> 'a list" where
  \<comment> \<open>\<open>xs[a:b]\<close>\<close>
  "py_slice xs a b =
     (let lo = slice_index a (length xs); hi = slice_index b (length xs)
      in take (hi - lo) (drop lo xs))"

definition py_isspace :: "char \<Rightarrow> bool" where
  \<comment> \<open>\<open>str.isspace\<close> on one character, for the code points below 256.\<close>
  "py_isspace c =
     ((of_char c :: nat) \<in> {9, 10, 11, 12, 13, 28, 29, 30, 31, 32, 133, 160})"

definition py_strip :: "string \<Rightarrow> string" where
  \<comment> \<open>\<open>s.strip()\<close>\<close>
  "py_strip s = rev (dropWhile py_isspace (rev (dropWhile py_isspace s)))"

section \<open>The oversize re-split step (pipeline.py)\<close>

text \<open>
  \<open>resplit_oversize_chunks\<close> is \<open>_resplit_oversize_chunks\<close> (a name cannot start with an
  underscore here); its two nested loops are \<open>resplit_loop\<close> and \<open>resplit_pieces\<close>.
\<close>

fun resplit_pieces :: "document \<Rightarrow> int \<Rightarrow> int list \<Rightarrow> document list \<Rightarrow> document list" where
  \<comment> \<open>The inner loop over \<open>start\<close>; \<open>result\<close> is the list being appended to.\<close>
  "resplit_pieces doc max_chars [] result = result"
| "resplit_pieces doc max_chars (start # starts) result =
     (let piece = py_slice (page_content doc) start (start + max_chars)
      in resplit_pieces doc max_chars starts
           (if py_strip piece \<noteq> [] then result @ [Document piece (metadata doc)]
            else result))"

fun resplit_loop :: "document list \<Rightarrow> int \<Rightarrow> document list \<Rightarrow> error + document list" where
  \<comment> \<open>The outer loop over \<open>chunks\<close>.\<close>
  "resplit_loop [] max_chars result = Inr result"
| "resplit_loop (doc # chunks) max_chars result =
     (let content = page_content doc
      in if int (length content) \<le> max_chars
         then resplit_loop chunks max_chars (result @ [doc])
         else (case py_range 0 (int (length content)) max_chars of
                 Inl e \<Rightarrow> Inl e
               | Inr starts \<Rightarrow>
                   resplit_loop chunks max_chars (resplit_pieces doc max_chars starts result)))"

definition resplit_oversize_chunks :: "document list \<Rightarrow> int \<Rightarrow> error + document list" where
  "resplit_oversize_chunks chunks max_chars = resplit_loop chunks max_chars []"

text \<open>
  The same step, chunk by chunk: \<open>slice_at w s k\<close> is the slice of width \<open>w\<close> at
  offset \<open>k * w\<close>, \<open>num_slices w L\<close> is \<open>ceil(L / w)\<close>, and \<open>resplit_chunk\<close> is what
  one chunk is replaced with when the limit is positive.
\<close>

definition slice_at :: "nat \<Rightarrow> 'a list \<Rightarrow> nat \<Rightarrow> 'a list" where
  "slice_at w s k = take w (drop (k * w) s)"

definition num_slices :: "nat \<Rightarrow> nat \<Rightarrow> nat" where
  "num_slices w L = (L + w - 1) div w"

definition slices :: "nat \<Rightarrow> 'a list \<Rightarrow> 'a list list" where
  "slices w s = map (slice_at w s) [0..<num_slices w (length s)]"

definition blank :: "string \<Rightarrow> bool" where
  \<comment> \<open>Every character is whitespace (the empty string included).\<close>
  "blank p = list_all py_isspace p"

definition non_whitespace :: "string \<Rightarrow> string" where
  "non_whitespace s = filter (\<lambda>c. \<not> py_isspace c) s"

definition kept_slices :: "nat \<Rightarrow> string \<Rightarrow> string list" where
  "kept_slices w s = filter (\<lambda>p. \<not> blank p) (slices w s)"

definition resplit_chunk :: "int \<Rightarrow> document \<Rightarrow> document list" where
  "resplit_chunk max_chars doc =
     (if int (length (page_content doc)) \<le> max_chars then [doc]
      else map (\<lambda>p. Document p (metadata doc))
             (kept_slices (nat max_chars) (page_content doc)))"

definition oversize :: "document list \<Rightarrow> int \<Rightarrow> nat list" where
  \<comment> \<open>The indices collected by the invariant check of \<open>run_pipeline\<close>.\<close>
  "oversize chunks max_chars =
     map fst (filter (\<lambda>(i, d). max_chars < int (length (page_content d))) (enumerate 0 chunks))"

section \<open>The language classifier and the splitter selection (store.py)\<close>

datatype language = MARKDOWN | RST

definition EXT_TO_LANGUAGE :: "string \<rightharpoonup> language" where
  "EXT_TO_LANGUAGE = [''.md'' \<mapsto> MARKDOWN, ''.markdown'' \<mapsto> MARKDOWN, ''.rst'' \<mapsto> RST]"

definition dict_get :: "(string \<rightharpoonup> pyval) \<Rightarrow> string \<Rightarrow> pyval" where
  \<comment> \<open>\<open>d.get(k)\<close>: \<open>None\<close> for a missing key.\<close>
  "dict_get d k = (case d k of None \<Rightarrow> PNone | Some v \<Rightarrow> v)"

fun truthy :: "pyval \<Rightarrow> bool" where
  "truthy PNone = False"
| "truthy (PStr s) = (s \<noteq> [])"
| "truthy (PInt n) = (n \<noteq> 0)"
| "truthy (PBool b) = b"

definition or_empty :: "pyval \<Rightarrow> pyval" where
  \<comment> \<open>\<open>v or ""\<close>\<close>
  "or_empty v = (if truthy v then v else PStr [])"

fun strip_method :: "pyval \<Rightarrow> error + string" where
  \<comment> \<open>\<open>v.strip()\<close>: only a \<open>str\<close> has the method.\<close>
  "strip_method (PStr s) = Inr (py_strip s)"
| "strip_method v = Inl AttributeError"

definition py_lower_char :: "char \<Rightarrow> char" where
  "py_lower_char c =
     (let n = (of_char c :: nat)
      in if (65 \<le> n \<and> n \<le> 90) \<or> (192 \<le> n \<and> n \<le> 222 \<and> n \<noteq> 215)
         then char_of (n + 32) else c)"

definition py_lower :: "string \<Rightarrow> string" where
  "py_lower s = map py_lower_char s"

fun split_last :: "char \<Rightarrow> string \<Rightarrow> (string \<times> string) option" where
  \<comment> \<open>The text before and after the last occurrence of the separator.\<close>
  "split_last sep [] = None"
| "split_last sep (c # cs) =
     (case split_last sep cs of
        Some (a, b) \<Rightarrow> Some (c # a, b)
      | None \<Rightarrow> if c = sep then Some ([], cs) else None)"

definition py_rsplit1 :: "char \<Rightarrow> string \<Rightarrow> string list" where
  \<comment> \<open>\<open>s.rsplit(sep, 1)\<close>\<close>
  "py_rsplit1 sep s = (case split_last sep s of None \<Rightarrow> [s] | Some (a, b) \<Rightarrow> [a, b])"

fun py_split :: "char \<Rightarrow> string \<Rightarrow> string list" where
  \<comment> \<open>\<open>s.split(sep)\<close>\<close>
  "py_split sep [] = [[]]"
| "py_split sep (c # cs) =
     (if c = sep then [] # py_split sep cs
      else (case py_split sep cs of
              [] \<Rightarrow> [[c]]
            | p # ps \<Rightarrow> (c # p) # ps))"

definition first_item :: "'a list \<Rightarrow> error + 'a" where
  \<comment> \<open>\<open>xs[0]\<close>\<close>
  "first_item xs = (case xs of [] \<Rightarrow> Inl IndexError | x # _ \<Rightarrow> Inr x)"

definition last_item :: "'a list \<Rightarrow> error + 'a" where
  \<comment> \<open>\<open>xs[-1]\<close>\<close>
  "last_item xs = (if xs = [] then Inl IndexError else Inr (last xs))"

definition ext_from_source :: "string \<Rightarrow> error + string" where
  \<comment> \<open>\<open>"." + source.rsplit(".", 1)[-1].split("/")[0].split("?")[0].lower()\<close>\<close>
  "ext_from_source source =
     (case last_item (py_rsplit1 (CHR ''.'') source) of
        Inl e \<Rightarrow> Inl e
      | Inr tail \<Rightarrow>
          (case first_item (py_split (CHR ''/'') tail) of
             Inl e \<Rightarrow> Inl e
           | Inr seg \<Rightarrow>
               (case first_item (py_split (CHR ''?'') seg) of
                  Inl e \<Rightarrow> Inl e
                | Inr name \<Rightarrow> Inr (''.'' @ py_lower name))))"

definition extension_of :: "(string \<rightharpoonup> pyval) \<Rightarrow> error + string" where
  \<comment> \<open>The value of \<open>ext\<close> when \<open>get_language_from_metadata\<close> reaches its \<open>return\<close>.\<close>
  "extension_of md =
     (case strip_method (or_empty (dict_get md ''file_extension'')) of
        Inl e \<Rightarrow> Inl e
      | Inr stripped \<Rightarrow>
          (let ext = py_lower stripped
           in if ext = [] then
                (case strip_method (or_empty (dict_get md ''source'')) of
                   Inl e \<Rightarrow> Inl e
                 | Inr source \<Rightarrow>
                     if CHR ''.'' \<in> set source then ext_from_source source else Inr ext)
              else Inr ext))"

definition get_language_from_metadata :: "(string \<rightharpoonup> pyval) \<Rightarrow> error + language option" where
  "get_language_from_metadata md =
     (case extension_of md of
        Inl e \<Rightarrow> Inl e
      | Inr ext \<Rightarrow> Inr (if ext \<noteq> [] then EXT_TO_LANGUAGE ext else None))"

text \<open>
  The splitters are built by the text-splitting library; the model keeps what
  \<open>store.py\<close> asks the library for.
\<close>

datatype splitter =
    Recursive_splitter int int "string list"
  | Language_splitter language int int

definition get_text_splitter :: "int \<Rightarrow> int option \<Rightarrow> int option \<Rightarrow> splitter" where
  "get_text_splitter max_chars chunk_size chunk_overlap =
     (let size = (case chunk_size of None \<Rightarrow> max_chars | Some s \<Rightarrow> s);
          overlap = (case chunk_overlap of None \<Rightarrow> max 50 (size div 10) | Some v \<Rightarrow> v)
      in Recursive_splitter size overlap [[CHR 0x0A, CHR 0x0A], [CHR 0x0A], '' '', ''''])"

definition get_text_splitter_for_language ::
  "int \<Rightarrow> language option \<Rightarrow> int option \<Rightarrow> int option \<Rightarrow> splitter" where
  "get_text_splitter_for_language max_chars lang chunk_size chunk_overlap =
     (let size = (case chunk_size of None \<Rightarrow> max_chars | Some s \<Rightarrow> s);
          overlap = (case chunk_overlap of None \<Rightarrow> max 50 (size div 10) | Some v \<Rightarrow> v)
      in case lang of
           Some l \<Rightarrow> Language_splitter l size overlap
         | None \<Rightarrow> get_text_splitter max_chars (Some size) (Some overlap))"

section \<open>The pipeline (pipeline.py)\<close>

text \<open>
  What \<open>run_pipeline\<close> calls outside the repository's own logic is a parameter: the
  loaders' result, the library's \<open>split_documents\<close>, the construction of the embedding
  model and vector store, and the store's \<open>add_documents\<close>. For each of them \<open>Inl\<close> is
  the exception it raised, which the pipeline passes on as \<open>Raised\<close>; only the handler
  around \<open>add_documents\<close> looks at it, and it catches \<open>Exception\<close> alone. The heartbeat
  thread only prints and is left out.
\<close>

record 'vs env =
  EMBED_MODEL_MAX_CHARS :: int
  load_all_documents :: "string \<Rightarrow> raised + document list"
  split_documents :: "splitter \<Rightarrow> document list \<Rightarrow> raised + document list"
  get_vector_store :: "string \<Rightarrow> raised + 'vs"
  add_documents :: "'vs \<Rightarrow> document list \<Rightarrow> raised + 'vs"

datatype lang_key = Lang language | Default

datatype event =
    Out_chunking int int int
  | Out_loaded int
  | Out_no_documents
  | Out_split int
  | Out_resplit int int int
  | Out_embedding int int
  | Call_add_documents "document list"
  | Err_batch_failed int int string
  | Out_batch_done int int int int
  | Out_stored

fun setdefault_append ::
  "lang_key \<Rightarrow> document \<Rightarrow> (lang_key \<times> document list) list \<Rightarrow> (lang_key \<times> document list) list" where
  \<comment> \<open>\<open>by_lang.setdefault(key, []).append(d)\<close> on an insertion-ordered dict.\<close>
  "setdefault_append key d [] = [(key, [d])]"
| "setdefault_append key d ((k, grp) # rest) =
     (if k = key then (k, grp @ [d]) # rest else (k, grp) # setdefault_append key d rest)"

fun group_by_language ::
  "document list \<Rightarrow> (lang_key \<times> document list) list \<Rightarrow> error + (lang_key \<times> document list) list" where
  "group_by_language [] by_lang = Inr by_lang"
| "group_by_language (d # docs) by_lang =
     (case get_language_from_metadata (metadata d) of
        Inl e \<Rightarrow> Inl e
      | Inr lang \<Rightarrow>
          (let key = (case lang of Some l \<Rightarrow> Lang l | None \<Rightarrow> Default)
           in group_by_language docs (setdefault_append key d by_lang)))"

fun split_groups ::
  "'vs env \<Rightarrow> int \<Rightarrow> int \<Rightarrow> (lang_key \<times> document list) list \<Rightarrow> document list
     \<Rightarrow> error + document list" where
  "split_groups E chunk_size chunk_overlap [] chunks = Inr chunks"
| "split_groups E chunk_size chunk_overlap ((key, grp) # rest) chunks =
     (let splitter =
            (case key of
               Lang l \<Rightarrow> get_text_splitter_for_language (EMBED_MODEL_MAX_CHARS E) (Some l)
                           (Some chunk_size) (Some chunk_overlap)
             | Default \<Rightarrow> get_text_splitter (EMBED_MODEL_MAX_CHARS E)
                           (Some chunk_size) (Some chunk_overlap))
      in case split_documents E splitter grp of
           Inl e \<Rightarrow> Inl (Raised e)
         | Inr cs \<Rightarrow> split_groups E chunk_size chunk_overlap rest (chunks @ cs))"

definition chunk_documents_with_language_awareness ::
  "'vs env \<Rightarrow> document list \<Rightarrow> int \<Rightarrow> int \<Rightarrow> error + document list" where
  "chunk_documents_with_language_awareness E docs chunk_size chunk_overlap =
     (case group_by_language docs [] of
        Inl e \<Rightarrow> Inl e
      | Inr by_lang \<Rightarrow> split_groups E chunk_size chunk_overlap by_lang [])"

definition EMBED_BATCH_SIZE :: int where
  "EMBED_BATCH_SIZE = 50"

fun embed_batches ::
  "('vs \<Rightarrow> document list \<Rightarrow> raised + 'vs) \<Rightarrow> document list \<Rightarrow> int \<Rightarrow> int \<Rightarrow> int list
     \<Rightarrow> 'vs \<Rightarrow> event list \<Rightarrow> (error + unit) \<times> 'vs \<times> event list" where
  \<comment> \<open>The loop over \<open>i\<close>; \<open>vs\<close> is the vector store, \<open>log\<close> what was printed and called.\<close>
  "embed_batches add chunks n_total num_batches [] vs log = (Inr (), vs, log)"
| "embed_batches add chunks n_total num_batches (i # starts) vs log =
     (let batch = py_slice chunks i (i + EMBED_BATCH_SIZE);
          batch_num = i div EMBED_BATCH_SIZE + 1
      in case add vs batch of
           Inl (Exc e) \<Rightarrow>
             (Inl (Raised (Exc e)), vs,
              log @ [Call_add_documents batch, Err_batch_failed batch_num num_batches e])
         | Inl (BaseExc e) \<Rightarrow>
             (Inl (Raised (BaseExc e)), vs, log @ [Call_add_documents batch])
         | Inr vs' \<Rightarrow>
             embed_batches add chunks n_total num_batches starts vs'
               (log @ [Call_add_documents batch,
                       Out_batch_done batch_num num_batches (min (i + EMBED_BATCH_SIZE) n_total) n_total]))"

definition embed_and_store ::
  "('vs \<Rightarrow> document list \<Rightarrow> raised + 'vs) \<Rightarrow> document list \<Rightarrow> 'vs \<Rightarrow> event list
     \<Rightarrow> (error + unit) \<times> 'vs \<times> event list" where
  \<comment> \<open>The last part of \<open>run_pipeline\<close>, from \<open>total = len(chunks)\<close> on.\<close>
  "embed_and_store add chunks vs log =
     (let n_total = int (length chunks);
          num_batches = (n_total + EMBED_BATCH_SIZE - 1) div EMBED_BATCH_SIZE;
          log1 = log @ [Out_embedding EMBED_BATCH_SIZE num_batches]
      in case py_range 0 n_total EMBED_BATCH_SIZE of
           Inl e \<Rightarrow> (Inl e, vs, log1)
         | Inr starts \<Rightarrow>
             (case embed_batches add chunks n_total num_batches starts vs log1 of
                (Inl e, vs', log2) \<Rightarrow> (Inl e, vs', log2)
              | (Inr u, vs', log2) \<Rightarrow> (Inr (), vs', log2 @ [Out_stored])))"

definition run_pipeline ::
  "'vs env \<Rightarrow> string \<Rightarrow> int option \<Rightarrow> int option \<Rightarrow> string
     \<Rightarrow> (error + unit) \<times> 'vs option \<times> event list" where
  "run_pipeline E config_path chunk_size chunk_overlap collection_name =
     (let max_chars = EMBED_MODEL_MAX_CHARS E;
          size = (case chunk_size of None \<Rightarrow> max_chars | Some s \<Rightarrow> s);
          overlap = (case chunk_overlap of None \<Rightarrow> max 50 (size div 10) | Some v \<Rightarrow> v);
          log0 = [Out_chunking size overlap max_chars]
      in case load_all_documents E config_path of
           Inl e \<Rightarrow> (Inl (Raised e), None, log0)
         | Inr docs \<Rightarrow>
             (let log1 = log0 @ [Out_loaded (int (length docs))]
              in if docs = [] then (Inr (), None, log1 @ [Out_no_documents])
                 else
                   (case chunk_documents_with_language_awareness E docs size overlap of
                      Inl e \<Rightarrow> (Inl e, None, log1)
                    | Inr chunks0 \<Rightarrow>
                        (let log2 = log1 @ [Out_split (int (length chunks0))];
                             n_before = length chunks0
                         in case resplit_oversize_chunks chunks0 max_chars of
                              Inl e \<Rightarrow> (Inl e, None, log2)
                            | Inr chunks \<Rightarrow>
                                (let log3 =
                                       (if length chunks \<noteq> n_before
                                        then log2 @ [Out_resplit (int n_before)
                                                       (int (length chunks)) max_chars]
                                        else log2)
                                 in if oversize chunks max_chars \<noteq> []
                                    then (Inl (AssertionError (oversize chunks max_chars)),
                                          None, log3)
                                    else
                                      (case get_vector_store E collection_name of
                                         Inl e \<Rightarrow> (Inl (Raised e), None, log3)
                                       | Inr vs \<Rightarrow>
                                           (case embed_and_store (add_documents E) chunks vs log3 of
                                              (r, vs', log4) \<Rightarrow> (r, Some vs', log4))))))))"

definition store_calls :: "event list \<Rightarrow> document list list" where
  \<comment> \<open>The batches handed to \<open>add_documents\<close>, in call order.\<close>
  "store_calls log = concat (map (\<lambda>ev. case ev of Call_add_documents b \<Rightarrow> [b] | _ \<Rightarrow> []) log)"

definition batch_errors :: "event list \<Rightarrow> (int \<times> int \<times> string) list" where
  \<comment> \<open>The \<open>[ERROR] Batch k/n failed\<close> lines written to stderr.\<close>
  "batch_errors log =
     concat (map (\<lambda>ev. case ev of Err_batch_failed k n e \<Rightarrow> [(k, n, e)] | _ \<Rightarrow> []) log)"

fun store_all :: "('vs \<Rightarrow> document list \<Rightarrow> raised + 'vs) \<Rightarrow> 'vs \<Rightarrow> document list list \<Rightarrow> raised + 'vs" where
  \<comment> \<open>The store after every batch of a list was added with success.\<close>
  "store_all add vs [] = Inr vs"
| "store_all add vs (b # bs) =
     (case add vs b of Inl e \<Rightarrow> Inl e | Inr vs' \<Rightarrow> store_all add vs' bs)"

definition batch_error_lines :: "nat \<Rightarrow> int \<Rightarrow> raised \<Rightarrow> (int \<times> int \<times> string) list" where
  \<comment> \<open>What the handler writes to stderr when batch \<open>k + 1\<close> of \<open>n\<close> raises \<open>r\<close>.\<close>
  "batch_error_lines k n r = (case r of Exc e \<Rightarrow> [(int k + 1, n, e)] | BaseExc e \<Rightarrow> [])"

section \<open>Notions used to state the properties\<close>

definition compliant :: "int \<Rightarrow> document \<Rightarrow> bool" where
  "compliant max_chars c = (int (length (page_content c)) \<le> max_chars)"

fun flat_map_err :: "('a \<Rightarrow> error + 'b list) \<Rightarrow> 'a list \<Rightarrow> error + 'b list" where
  \<comment> \<open>Flat-map of a function that can raise: the first exception wins.\<close>
  "flat_map_err f [] = Inr []"
| "flat_map_err f (x # xs) =
     (case f x of
        Inl e \<Rightarrow> Inl e
      | Inr ys \<Rightarrow> (case flat_map_err f xs of Inl e \<Rightarrow> Inl e | Inr zs \<Rightarrow> Inr (ys @ zs)))"

subsection \<open>The classifier in the words of its description\<close>

text \<open>
  \<open>claimed_language\<close> follows the description of the classifier word by word: the
  \<open>file_extension\<close> field as it is when it is present and non-empty, otherwise the text
  after the last dot of \<open>source\<close>, cut at the first slash or question mark and
  lower-cased. \<open>classified_language\<close> differs in that both fields are stripped of
  surrounding whitespace and the \<open>file_extension\<close> is lower-cased before it is tested
  and used.
\<close>

definition after_last :: "char \<Rightarrow> string \<Rightarrow> string" where
  "after_last sep s = rev (takeWhile (\<lambda>c. c \<noteq> sep) (rev s))"

definition cut_at_path_or_query :: "string \<Rightarrow> string" where
  "cut_at_path_or_query s = takeWhile (\<lambda>c. c \<noteq> CHR ''/'' \<and> c \<noteq> CHR ''?'') s"

definition language_of_extension :: "string \<Rightarrow> language option" where
  "language_of_extension ext =
     (if ext = ''.md'' \<or> ext = ''.markdown'' then Some MARKDOWN
      else if ext = ''.rst'' then Some RST
      else None)"

fun text_of :: "pyval \<Rightarrow> string" where
  "text_of (PStr s) = s"
| "text_of v = []"

fun str_or_falsy :: "pyval \<Rightarrow> bool" where
  "str_or_falsy (PStr s) = True"
| "str_or_falsy v = (\<not> truthy v)"

definition language_from_source :: "string \<Rightarrow> language option" where
  "language_from_source src =
     (if CHR ''.'' \<in> set src
      then language_of_extension (''.'' @ py_lower (cut_at_path_or_query (after_last (CHR ''.'') src)))
      else None)"

definition claimed_language :: "(string \<rightharpoonup> pyval) \<Rightarrow> language option" where
  "claimed_language md =
     (let from_source = (case md ''source'' of
                           Some (PStr src) \<Rightarrow> language_from_source src
                         | _ \<Rightarrow> None)
      in case md ''file_extension'' of
           Some (PStr fe) \<Rightarrow> if fe \<noteq> [] then language_of_extension fe else from_source
         | _ \<Rightarrow> from_source)"

definition classified_language :: "(string \<rightharpoonup> pyval) \<Rightarrow> language option" where
  "classified_language md =
     (let fe = py_lower (py_strip (text_of (dict_get md ''file_extension'')))
      in if fe \<noteq> [] then language_of_extension fe
         else language_from_source (py_strip (text_of (dict_get md ''source''))))"

subsection \<open>Example inputs\<close>

definition text_doc :: "string \<Rightarrow> document" where
  "text_doc s = Document s Map.empty"

definition md_doc :: "string \<Rightarrow> document" where
  "md_doc s = Document s [''file_extension'' \<mapsto> PStr ''.md'']"

definition example_env :: "int \<Rightarrow> document list \<Rightarrow> (document list) env" where
  \<comment> \<open>A splitter that returns its input and a store that is the list of what it was given.\<close>
  "example_env max_chars docs =
     \<lparr>EMBED_MODEL_MAX_CHARS = max_chars,
      load_all_documents = (\<lambda>_. Inr docs),
      split_documents = (\<lambda>_ ds. Inr ds),
      get_vector_store = (\<lambda>_. Inr []),
      add_documents = (\<lambda>vs batch. Inr (vs @ batch))\<rparr>"

definition failing_store :: "document list \<Rightarrow> document list \<Rightarrow> raised + document list" where
  "failing_store vs batch =
     (if 50 \<le> length vs then Inl (Exc ''connection refused'') else Inr (vs @ batch))"

definition interrupted_store :: "document list \<Rightarrow> document list \<Rightarrow> raised + document list" where
  "interrupted_store vs batch =
     (if 50 \<le> length vs then Inl (BaseExc ''KeyboardInterrupt'') else Inr (vs @ batch))"

definition example_chunks :: "document list" where
  "example_chunks = replicate 120 (text_doc ''x'')"

definition example_env_with ::
  "(document list \<Rightarrow> document list \<Rightarrow> raised + document list) \<Rightarrow> (document list) env" where
  \<comment> \<open>The example environment for 120 one-character documents, with a given store.\<close>
  "example_env_with store = (example_env 500 example_chunks)\<lparr>add_documents := store\<rparr>"

section \<open>Properties of the re-split step\<close>

lemma ex_dropWhile_iff: "(\<exists>x\<in>set (dropWhile P xs). \<not> P x) \<longleftrightarrow> (\<exists>x\<in>set xs. \<not> P x)"
  by (induction xs) auto

lemma strip_nonempty_iff: "py_strip p \<noteq> [] \<longleftrightarrow> \<not> blank p"
proof -
  have "py_strip p \<noteq> [] \<longleftrightarrow> (\<exists>x\<in>set (rev (dropWhile py_isspace p)). \<not> py_isspace x)"
    by (simp add: py_strip_def dropWhile_eq_Nil_conv)
  also have "\<dots> \<longleftrightarrow> (\<exists>x\<in>set (dropWhile py_isspace p). \<not> py_isspace x)"
    by simp
  also have "\<dots> \<longleftrightarrow> (\<exists>x\<in>set p. \<not> py_isspace x)"
    by (rule ex_dropWhile_iff)
  finally show ?thesis by (simp add: blank_def list_all_iff)
qed

lemma lt_num_slices_iff: "0 < w \<Longrightarrow> k < num_slices w L \<longleftrightarrow> k * w < L"
proof -
  assume w: "0 < w"
  have "k < num_slices w L \<longleftrightarrow> Suc k \<le> (L + w - 1) div w"
    by (simp add: num_slices_def Suc_le_eq)
  also have "\<dots> \<longleftrightarrow> Suc k * w \<le> L + w - 1"
    using w by (simp add: less_eq_div_iff_mult_less_eq)
  also have "\<dots> \<longleftrightarrow> k * w < L"
    using w by auto
  finally show ?thesis .
qed

lemma range_up_mult:
  "0 < w \<Longrightarrow> range_up (int (k * w)) (int L) (int w) = map (\<lambda>j. int (j * w)) [k..<num_slices w L]"
proof (induction "num_slices w L - k" arbitrary: k)
  case 0
  then have "\<not> k < num_slices w L" by simp
  with 0 have "\<not> k * w < L" by (simp add: lt_num_slices_iff)
  with 0 show ?case by (simp add: range_up.simps [of "int (k * w)"] del: of_nat_mult)
next
  case (Suc n)
  then have lt: "k < num_slices w L" by simp
  with Suc have kw: "k * w < L" by (simp add: lt_num_slices_iff)
  have "n = num_slices w L - Suc k" using Suc by simp
  from Suc(1) [OF this Suc(3)]
  have ih: "range_up (int (Suc k * w)) (int L) (int w) = map (\<lambda>j. int (j * w)) [Suc k..<num_slices w L]" .
  have eq: "int (k * w) + int w = int (Suc k * w)" by simp
  have "int (k * w) < int L" using kw by (simp only: of_nat_less_iff)
  then have "range_up (int (k * w)) (int L) (int w)
      = int (k * w) # range_up (int (Suc k * w)) (int L) (int w)"
    using Suc(3) by (subst range_up.simps) (simp only: eq of_nat_0_less_iff if_True simp_thms)
  then show ?case
    using lt by (simp only: ih upt_conv_Cons list.map)
qed

lemma py_slice_nat:
  "py_slice s (int a) (int a + int w) = take w (drop a s)"
proof (cases "a \<le> length s")
  case True
  have "slice_index (int a + int w) (length s) = min (a + w) (length s)"
    by (simp add: slice_index_def nat_add_distrib)
  moreover have "slice_index (int a) (length s) = a"
    using True by (simp add: slice_index_def)
  ultimately have "py_slice s (int a) (int a + int w) = take (min (a + w) (length s) - a) (drop a s)"
    by (simp add: py_slice_def)
  also have "min (a + w) (length s) - a = min w (length (drop a s))"
    using True by auto
  also have "take (min w (length (drop a s))) (drop a s) = take w (drop a s)"
    by (simp add: min_def)
  finally show ?thesis .
next
  case False
  then show ?thesis by (simp add: py_slice_def slice_index_def)
qed

lemma py_slice_slice_at:
  "py_slice s (int (k * w)) (int (k * w) + int w) = slice_at w s k"
  unfolding slice_at_def by (rule py_slice_nat)


lemma resplit_pieces_map:
  "resplit_pieces doc (int w) (map (\<lambda>j. int (j * w)) ks) result =
     result @ map (\<lambda>p. Document p (metadata doc))
                (filter (\<lambda>p. \<not> blank p) (map (slice_at w (page_content doc)) ks))"
proof (induction ks arbitrary: result)
  case Nil
  show ?case by simp
next
  case (Cons k ks)
  show ?case
    by (simp only: list.map resplit_pieces.simps py_slice_slice_at Let_def
          strip_nonempty_iff Cons.IH) simp
qed

lemma resplit_pieces_chunk:
  assumes "0 < max_chars" and "\<not> int (length (page_content doc)) \<le> max_chars"
  shows "resplit_pieces doc max_chars (range_up 0 (int (length (page_content doc))) max_chars) result
           = result @ resplit_chunk max_chars doc"
proof -
  define w where "w = nat max_chars"
  have w: "0 < w" and m: "max_chars = int w" using assms(1) by (simp_all add: w_def)
  have "range_up 0 (int (length (page_content doc))) (int w)
          = map (\<lambda>j. int (j * w)) [0..<num_slices w (length (page_content doc))]"
    using range_up_mult [OF w, of 0] by simp
  then show ?thesis
    using assms(2) unfolding m
    by (simp only: resplit_pieces_map resplit_chunk_def kept_slices_def slices_def nat_int if_False)
qed

lemma resplit_loop_flat:
  "0 < max_chars \<Longrightarrow>
     resplit_loop chunks max_chars result = Inr (result @ concat (map (resplit_chunk max_chars) chunks))"
proof (induction chunks arbitrary: result)
  case Nil
  show ?case by simp
next
  case (Cons doc chunks)
  show ?case
  proof (cases "int (length (page_content doc)) \<le> max_chars")
    case True
    then show ?thesis
      using Cons by (simp add: resplit_chunk_def)
  next
    case False
    have r: "py_range 0 (int (length (page_content doc))) max_chars
               = Inr (range_up 0 (int (length (page_content doc))) max_chars)"
      using Cons.prems by (simp add: py_range_def)
    show ?thesis
      using False Cons
      by (simp add: r resplit_pieces_chunk)
  qed
qed

lemma resplit_flat:
  "0 < max_chars \<Longrightarrow>
     resplit_oversize_chunks chunks max_chars = Inr (concat (map (resplit_chunk max_chars) chunks))"
  by (simp add: resplit_oversize_chunks_def resplit_loop_flat)

lemma length_slice_at_le: "length (slice_at w s k) \<le> w"
  by (simp add: slice_at_def)

lemma length_slice_at_int: "0 < max_chars \<Longrightarrow> int (length (slice_at (nat max_chars) s k)) \<le> max_chars"
  using length_slice_at_le [of "nat max_chars" s k] by linarith

lemma resplit_chunk_bounded:
  "0 < max_chars \<Longrightarrow> c \<in> set (resplit_chunk max_chars doc) \<Longrightarrow>
     int (length (page_content c)) \<le> max_chars"
  by (auto simp: resplit_chunk_def kept_slices_def slices_def Document_def length_slice_at_int
           split: if_splits)

lemma concat_slice_at: "concat (map (slice_at w s) [0..<n]) = take (n * w) s"
proof (induction n)
  case 0
  show ?case by simp
next
  case (Suc n)
  have "take (n * w) s @ take w (drop (n * w) s) = take (n * w + w) s"
    by (simp add: take_add)
  with Suc show ?case by (simp add: slice_at_def add.commute)
qed

lemma num_slices_covers: "0 < w \<Longrightarrow> L \<le> num_slices w L * w"
proof -
  assume w: "0 < w"
  have "\<not> num_slices w L * w < L"
    using lt_num_slices_iff [OF w, of "num_slices w L" L] by simp
  then show ?thesis by simp
qed

lemma concat_slices: "0 < w \<Longrightarrow> concat (slices w s) = s"
  by (simp add: slices_def concat_slice_at num_slices_covers)

lemma length_slice_at: "length (slice_at w s k) = min w (length s - k * w)"
  by (simp add: slice_at_def min.commute)


lemma resplit_pieces_acc:
  "resplit_pieces doc m starts result = result @ resplit_pieces doc m starts []"
proof (induction starts arbitrary: result)
  case Nil
  show ?case by simp
next
  case (Cons a starts)
  show ?case
    using Cons [of "result @ [Document (py_slice (page_content doc) a (a + m)) (metadata doc)]"]
      Cons [of "[Document (py_slice (page_content doc) a (a + m)) (metadata doc)]"]
      Cons [of result]
    by (simp add: Let_def)
qed

lemma resplit_loop_acc:
  "resplit_loop chunks m result =
     (case resplit_loop chunks m [] of Inl e \<Rightarrow> Inl e | Inr ys \<Rightarrow> Inr (result @ ys))"
proof (induction chunks arbitrary: result)
  case Nil
  show ?case by simp
next
  case (Cons doc chunks)
  show ?case
  proof (cases "int (length (page_content doc)) \<le> m")
    case True
    then show ?thesis
      using Cons [of "result @ [doc]"] Cons [of "[doc]"]
      by (simp split: sum.splits)
  next
    case False
    show ?thesis
    proof (cases "py_range 0 (int (length (page_content doc))) m")
      case (Inl e)
      with False show ?thesis by simp
    next
      case (Inr starts)
      with False show ?thesis
        using Cons [of "resplit_pieces doc m starts result"]
          Cons [of "resplit_pieces doc m starts []"]
          resplit_pieces_acc [of doc m starts result]
        by (simp split: sum.splits)
    qed
  qed
qed

lemma resplit_loop_Cons:
  "resplit_loop (doc # chunks) m [] =
     (case resplit_loop [doc] m [] of
        Inl e \<Rightarrow> Inl e
      | Inr ys \<Rightarrow> (case resplit_loop chunks m [] of Inl e \<Rightarrow> Inl e | Inr zs \<Rightarrow> Inr (ys @ zs)))"
proof (cases "int (length (page_content doc)) \<le> m")
  case True
  then show ?thesis
    using resplit_loop_acc [of chunks m "[doc]"] by simp
next
  case False
  show ?thesis
  proof (cases "py_range 0 (int (length (page_content doc))) m")
    case (Inl e)
    with False show ?thesis by simp
  next
    case (Inr starts)
    with False show ?thesis
      using resplit_loop_acc [of chunks m "resplit_pieces doc m starts []"] by simp
  qed
qed

lemma resplit_flat_map_err:
  "resplit_oversize_chunks chunks m = flat_map_err (\<lambda>doc. resplit_oversize_chunks [doc] m) chunks"
  unfolding resplit_oversize_chunks_def
proof (induction chunks)
  case Nil
  show ?case by simp
next
  case (Cons doc chunks)
  show ?case
    by (subst resplit_loop_Cons) (simp only: flat_map_err.simps Cons)
qed

lemma resplit_single_compliant:
  "int (length (page_content doc)) \<le> m \<Longrightarrow> resplit_oversize_chunks [doc] m = Inr [doc]"
  by (simp add: resplit_oversize_chunks_def)

lemma resplit_compliant_loop:
  "list_all (compliant m) chunks \<Longrightarrow> resplit_loop chunks m result = Inr (result @ chunks)"
  by (induction chunks arbitrary: result) (simp_all add: compliant_def)

lemma range_down_empty: "0 \<le> stop \<Longrightarrow> range_down 0 stop step = []"
  by (simp add: range_down.simps)

lemma resplit_single_result_compliant:
  assumes "resplit_oversize_chunks [doc] m = Inr ys"
  shows "list_all (compliant m) ys"
proof (cases "int (length (page_content doc)) \<le> m")
  case True
  with assms show ?thesis
    by (auto simp: resplit_oversize_chunks_def compliant_def)
next
  case False
  consider "m = 0" | "m < 0" | "0 < m" by linarith
  then show ?thesis
  proof cases
    case 1
    with False assms show ?thesis
      by (simp add: resplit_oversize_chunks_def py_range_def)
  next
    case 2
    with False assms show ?thesis
      by (auto simp: resplit_oversize_chunks_def py_range_def range_down_empty)
  next
    case 3
    have "ys = resplit_chunk m doc"
      using assms resplit_flat [OF 3, of "[doc]"] by simp
    then show ?thesis
      using resplit_chunk_bounded [OF 3, of _ doc]
      by (auto simp: list_all_iff compliant_def)
  qed
qed

lemma flat_map_err_all:
  assumes "flat_map_err f xs = Inr ys" and "\<And>x zs. f x = Inr zs \<Longrightarrow> list_all P zs"
  shows "list_all P ys"
  using assms(1)
proof (induction xs arbitrary: ys)
  case Nil
  then show ?case by simp
next
  case (Cons x xs)
  then show ?case
    using assms(2) [of x] by (auto split: sum.splits)
qed

lemma resplit_result_compliant:
  "resplit_oversize_chunks chunks m = Inr ys \<Longrightarrow> list_all (compliant m) ys"
  using flat_map_err_all [of "\<lambda>doc. resplit_oversize_chunks [doc] m" chunks ys "compliant m"]
    resplit_single_result_compliant
  by (simp add: resplit_flat_map_err [symmetric])

lemma filter_enumerate_empty_iff:
  "filter (\<lambda>(i, d). m < int (length (page_content d))) (enumerate n chunks) = []
     \<longleftrightarrow> list_all (compliant m) chunks"
  by (induction chunks arbitrary: n) (auto simp: compliant_def)

lemma oversize_empty_iff: "oversize chunks m = [] \<longleftrightarrow> list_all (compliant m) chunks"
  by (simp add: oversize_def filter_enumerate_empty_iff)


lemma embed_batches_no_assertion:
  "fst (embed_batches add chunks n_total num_batches starts vs log) \<noteq> Inl (AssertionError idx)"
  by (induction starts arbitrary: vs log) (simp_all add: Let_def split: sum.splits raised.splits)

lemma embed_and_store_no_assertion:
  "fst (embed_and_store add chunks vs log) \<noteq> Inl (AssertionError idx)"
proof -
  have r: "py_range 0 (int (length chunks)) EMBED_BATCH_SIZE
             = Inr (range_up 0 (int (length chunks)) EMBED_BATCH_SIZE)"
    by (simp add: py_range_def EMBED_BATCH_SIZE_def)
  show ?thesis
    using embed_batches_no_assertion [of add chunks "int (length chunks)"
        "(int (length chunks) + EMBED_BATCH_SIZE - 1) div EMBED_BATCH_SIZE"
        "range_up 0 (int (length chunks)) EMBED_BATCH_SIZE" vs
        "log @ [Out_embedding EMBED_BATCH_SIZE ((int (length chunks) + EMBED_BATCH_SIZE - 1) div EMBED_BATCH_SIZE)]" idx]
    by (auto simp: embed_and_store_def Let_def r split: sum.splits prod.splits)
qed

lemma split_groups_no_assertion:
  "split_groups E sz ov groups chunks \<noteq> Inl (AssertionError idx)"
  by (induction groups arbitrary: chunks) (auto simp: Let_def split: sum.splits)

lemma strip_method_error: "strip_method v = Inl e \<Longrightarrow> e = AttributeError"
  by (cases v) simp_all

lemma first_item_error: "first_item xs = Inl e \<Longrightarrow> e = IndexError"
  by (simp add: first_item_def split: list.splits)

lemma last_item_error: "last_item xs = Inl e \<Longrightarrow> e = IndexError"
  by (simp add: last_item_def split: if_splits)

lemma ext_from_source_error: "ext_from_source source = Inl e \<Longrightarrow> e = IndexError"
  by (auto simp: ext_from_source_def split: sum.splits dest: first_item_error last_item_error)

lemma extension_of_error: "extension_of md = Inl e \<Longrightarrow> e = AttributeError \<or> e = IndexError"
  by (auto simp: extension_of_def Let_def split: sum.splits if_splits
        dest: strip_method_error ext_from_source_error)

lemma get_language_error:
  "get_language_from_metadata md = Inl e \<Longrightarrow> e = AttributeError \<or> e = IndexError"
  by (auto simp: get_language_from_metadata_def split: sum.splits dest: extension_of_error)

lemma group_by_language_error:
  "group_by_language docs by_lang = Inl e \<Longrightarrow> e = AttributeError \<or> e = IndexError"
proof (induction docs arbitrary: by_lang)
  case Nil
  then show ?case by simp
next
  case (Cons d docs)
  show ?case
  proof (cases "get_language_from_metadata (metadata d)")
    case (Inl e')
    with Cons.prems show ?thesis by (auto dest: get_language_error)
  next
    case (Inr lang)
    with Cons.prems show ?thesis by (auto simp: Let_def dest: Cons.IH)
  qed
qed

lemma chunk_documents_no_assertion:
  "chunk_documents_with_language_awareness E docs sz ov \<noteq> Inl (AssertionError idx)"
  using split_groups_no_assertion [of E sz ov _ "[]" idx]
  by (auto simp: chunk_documents_with_language_awareness_def split: sum.splits
        dest: group_by_language_error)

lemma resplit_loop_error: "resplit_loop chunks m result = Inl e \<Longrightarrow> e = ValueError"
proof (induction chunks arbitrary: result)
  case Nil
  then show ?case by simp
next
  case (Cons doc chunks)
  then show ?case
    by (auto simp: Let_def py_range_def split: if_splits sum.splits)
qed

lemma resplit_error: "resplit_oversize_chunks chunks m = Inl e \<Longrightarrow> e = ValueError"
  unfolding resplit_oversize_chunks_def by (rule resplit_loop_error)

lemma resplit_passes_check:
  "resplit_oversize_chunks chunks m = Inr ys \<Longrightarrow> oversize ys m = []"
  by (simp add: oversize_empty_iff resplit_result_compliant)

lemma run_pipeline_no_assertion:
  "fst (run_pipeline E config_path chunk_size chunk_overlap collection_name) \<noteq> Inl (AssertionError idx)"
proof -
  let ?m = "EMBED_MODEL_MAX_CHARS E"
  let ?sz = "case chunk_size of None \<Rightarrow> ?m | Some s \<Rightarrow> s"
  let ?ov = "case chunk_overlap of None \<Rightarrow> max 50 (?sz div 10) | Some v \<Rightarrow> v"
  show ?thesis
  proof (cases "load_all_documents E config_path")
    case (Inl e)
    then show ?thesis by (simp add: run_pipeline_def Let_def)
  next
    case docs: (Inr docs)
    show ?thesis
    proof (cases "docs = []")
      case True
      with docs show ?thesis by (simp add: run_pipeline_def Let_def)
    next
      case nonempty: False
      show ?thesis
      proof (cases "chunk_documents_with_language_awareness E docs ?sz ?ov")
        case (Inl e)
        then have "e \<noteq> AssertionError idx"
          using chunk_documents_no_assertion [of E docs ?sz ?ov idx] by auto
        with Inl docs nonempty show ?thesis
          by (simp add: run_pipeline_def Let_def)
      next
        case chunks0: (Inr chunks0)
        show ?thesis
        proof (cases "resplit_oversize_chunks chunks0 ?m")
          case (Inl e)
          then have "e = ValueError" by (rule resplit_error)
          with Inl chunks0 docs nonempty show ?thesis
            by (simp add: run_pipeline_def Let_def)
        next
          case chunks: (Inr chunks)
          then have ok: "oversize chunks ?m = []" by (rule resplit_passes_check)
          show ?thesis
          proof (cases "get_vector_store E collection_name")
            case (Inl e)
            with ok chunks chunks0 docs nonempty show ?thesis
              by (simp add: run_pipeline_def Let_def)
          next
            case (Inr vs)
            with ok chunks chunks0 docs nonempty show ?thesis
              using embed_and_store_no_assertion [of "add_documents E" chunks vs _ idx]
              by (simp add: run_pipeline_def Let_def split: prod.splits)
                 (metis fst_conv)
          qed
        qed
      qed
    qed
  qed
qed

subsection \<open>The claims about the re-split step\<close>

text \<open>
  Claim C1. For every chunk sequence and every positive limit, the re-split step returns
  (it raises nothing) a sequence in which every chunk's text is at most \<open>max_chars\<close>
  long, so the list of oversize indices computed by the invariant check is empty; and
  \<open>run_pipeline\<close> never ends in the \<open>AssertionError\<close> of that check, whatever the loaders,
  the splitter and the store do.
\<close>

theorem resplit_size_invariant:
  assumes "0 < max_chars"
  shows "(\<exists>ys. resplit_oversize_chunks chunks max_chars = Inr ys
            \<and> list_all (\<lambda>c. int (length (page_content c)) \<le> max_chars) ys
            \<and> oversize ys max_chars = [])
       \<and> (EMBED_MODEL_MAX_CHARS E = max_chars \<longrightarrow>
            fst (run_pipeline E config_path chunk_size chunk_overlap collection_name)
              \<noteq> Inl (AssertionError idx))"
proof -
  have "resplit_oversize_chunks chunks max_chars = Inr (concat (map (resplit_chunk max_chars) chunks))"
    using assms by (rule resplit_flat)
  moreover from this have c: "list_all (compliant max_chars) (concat (map (resplit_chunk max_chars) chunks))"
    by (rule resplit_result_compliant)
  moreover have "oversize (concat (map (resplit_chunk max_chars) chunks)) max_chars = []"
    using c by (simp add: oversize_empty_iff)
  ultimately show ?thesis
    using run_pipeline_no_assertion [of E config_path chunk_size chunk_overlap collection_name idx]
    by (auto simp: compliant_def [abs_def])
qed

lemma resplit_example:
  "resplit_oversize_chunks [text_doc ''abcdefg''] 3
     = Inr [text_doc ''abc'', text_doc ''def'', text_doc ''g'']"
  by (simp add: resplit_oversize_chunks_def py_range_def range_up.simps text_doc_def Document_def
      py_slice_def slice_index_def py_strip_def py_isspace_def)

theorem resplit_size_invariant_witness:
  "(0::int) < 3
   \<and> (\<exists>ys. resplit_oversize_chunks [text_doc ''abcdefg''] 3 = Inr ys
          \<and> list_all (\<lambda>c. int (length (page_content c)) \<le> 3) ys
          \<and> oversize ys 3 = [])
   \<and> EMBED_MODEL_MAX_CHARS (example_env 3 [text_doc ''abcdefg'']) = 3
   \<and> fst (run_pipeline (example_env 3 [text_doc ''abcdefg'']) ''config'' None None ''kb'')
        \<noteq> Inl (AssertionError [0])"
  using resplit_size_invariant [of 3 "[text_doc ''abcdefg'']" "example_env 3 [text_doc ''abcdefg'']"
      "''config''" None None "''kb''" "[0]"]
  by (simp add: example_env_def)

text \<open>
  Claim C6. On a sequence whose chunks are all within the limit the re-split step returns
  the sequence itself; and whenever the step returns at all, running it again on its
  result returns that result unchanged.
\<close>

theorem resplit_identity_on_compliant:
  "(list_all (\<lambda>c. int (length (page_content c)) \<le> max_chars) chunks \<longrightarrow>
      resplit_oversize_chunks chunks max_chars = Inr chunks)
   \<and> (resplit_oversize_chunks chunks max_chars = Inr ys \<longrightarrow>
      resplit_oversize_chunks ys max_chars = Inr ys)"
proof (intro conjI impI)
  assume "list_all (\<lambda>c. int (length (page_content c)) \<le> max_chars) chunks"
  then have "list_all (compliant max_chars) chunks" by (simp add: compliant_def [abs_def])
  then show "resplit_oversize_chunks chunks max_chars = Inr chunks"
    by (simp add: resplit_oversize_chunks_def resplit_compliant_loop)
next
  assume "resplit_oversize_chunks chunks max_chars = Inr ys"
  then have "list_all (compliant max_chars) ys" by (rule resplit_result_compliant)
  then show "resplit_oversize_chunks ys max_chars = Inr ys"
    by (simp add: resplit_oversize_chunks_def resplit_compliant_loop)
qed

theorem resplit_identity_on_compliant_witness:
  "list_all (\<lambda>c. int (length (page_content c)) \<le> 3) [text_doc ''abc'', text_doc ''def'', text_doc ''g'']
   \<and> resplit_oversize_chunks [text_doc ''abc'', text_doc ''def'', text_doc ''g''] 3
        = Inr [text_doc ''abc'', text_doc ''def'', text_doc ''g'']
   \<and> resplit_oversize_chunks [text_doc ''abcdefg''] 3
        = Inr [text_doc ''abc'', text_doc ''def'', text_doc ''g'']"
proof -
  have c: "list_all (\<lambda>c. int (length (page_content c)) \<le> 3)
             [text_doc ''abc'', text_doc ''def'', text_doc ''g'']"
    by (simp add: text_doc_def Document_def)
  from resplit_identity_on_compliant
      [of 3 "[text_doc ''abc'', text_doc ''def'', text_doc ''g'']"
         "[text_doc ''abc'', text_doc ''def'', text_doc ''g'']"]
    resplit_identity_on_compliant
      [of 3 "[text_doc ''abcdefg'']" "[text_doc ''abc'', text_doc ''def'', text_doc ''g'']"]
  show ?thesis using c resplit_example by simp
qed

text \<open>
  Claim C10. The re-split step is the flat-map, in input order, of what it does to each
  chunk alone: a chunk within the limit is replaced by itself, and an oversize chunk (for
  a positive limit) by its non-blank slices in increasing order of their position \<open>k\<close>.
\<close>

theorem resplit_is_flat_map:
  "resplit_oversize_chunks chunks max_chars
     = flat_map_err (\<lambda>doc. resplit_oversize_chunks [doc] max_chars) chunks
   \<and> (int (length (page_content doc)) \<le> max_chars \<longrightarrow>
        resplit_oversize_chunks [doc] max_chars = Inr [doc])
   \<and> (0 < max_chars \<and> max_chars < int (length (page_content doc)) \<longrightarrow>
        resplit_oversize_chunks [doc] max_chars
          = Inr (map (\<lambda>k. Document (slice_at (nat max_chars) (page_content doc) k) (metadata doc))
                  (filter (\<lambda>k. \<not> blank (slice_at (nat max_chars) (page_content doc) k))
                     [0..<num_slices (nat max_chars) (length (page_content doc))])))"
proof (intro conjI impI)
  show "resplit_oversize_chunks chunks max_chars
     = flat_map_err (\<lambda>doc. resplit_oversize_chunks [doc] max_chars) chunks"
    by (rule resplit_flat_map_err)
next
  assume "int (length (page_content doc)) \<le> max_chars"
  then show "resplit_oversize_chunks [doc] max_chars = Inr [doc]"
    by (rule resplit_single_compliant)
next
  assume a: "0 < max_chars \<and> max_chars < int (length (page_content doc))"
  then have "resplit_oversize_chunks [doc] max_chars = Inr (resplit_chunk max_chars doc)"
    using resplit_flat [of max_chars "[doc]"] by simp
  also have "resplit_chunk max_chars doc
      = map (\<lambda>k. Document (slice_at (nat max_chars) (page_content doc) k) (metadata doc))
          (filter (\<lambda>k. \<not> blank (slice_at (nat max_chars) (page_content doc) k))
             [0..<num_slices (nat max_chars) (length (page_content doc))])"
    using a by (simp add: resplit_chunk_def kept_slices_def slices_def filter_map comp_def)
  finally show "resplit_oversize_chunks [doc] max_chars
          = Inr (map (\<lambda>k. Document (slice_at (nat max_chars) (page_content doc) k) (metadata doc))
                  (filter (\<lambda>k. \<not> blank (slice_at (nat max_chars) (page_content doc) k))
                     [0..<num_slices (nat max_chars) (length (page_content doc))]))" .
qed

theorem resplit_is_flat_map_witness:
  "resplit_oversize_chunks [text_doc ''ab'', text_doc ''abcdefg''] 3
     = flat_map_err (\<lambda>doc. resplit_oversize_chunks [doc] 3) [text_doc ''ab'', text_doc ''abcdefg'']
   \<and> int (length (page_content (text_doc ''ab''))) \<le> 3
   \<and> resplit_oversize_chunks [text_doc ''ab''] 3 = Inr [text_doc ''ab'']
   \<and> (0::int) < 3 \<and> 3 < int (length (page_content (text_doc ''abcdefg'')))
   \<and> resplit_oversize_chunks [text_doc ''abcdefg''] 3
        = Inr [text_doc ''abc'', text_doc ''def'', text_doc ''g'']"
  using resplit_is_flat_map [of "[text_doc ''ab'', text_doc ''abcdefg'']" 3 "text_doc ''ab''"]
    resplit_is_flat_map [of "[]" 3 "text_doc ''abcdefg''"]
  by (simp add: text_doc_def Document_def slice_at_def num_slices_def blank_def py_isspace_def
        upt_conv_Cons)


lemma non_whitespace_blank: "blank p \<Longrightarrow> non_whitespace p = []"
  by (simp add: blank_def non_whitespace_def list_all_iff)

lemma non_whitespace_append: "non_whitespace (xs @ ys) = non_whitespace xs @ non_whitespace ys"
  by (simp add: non_whitespace_def)

lemma non_whitespace_Nil: "non_whitespace [] = []"
  by (simp add: non_whitespace_def)

lemma non_whitespace_concat_kept:
  "non_whitespace (concat (filter (\<lambda>p. \<not> blank p) ps)) = non_whitespace (concat ps)"
  by (induction ps) (simp_all add: non_whitespace_append non_whitespace_blank non_whitespace_Nil)

lemma non_whitespace_count_concat:
  "length (non_whitespace (concat ps)) = sum_list (map (\<lambda>p. length (non_whitespace p)) ps)"
  by (induction ps) (simp_all add: non_whitespace_append non_whitespace_Nil)

lemma num_slices_pos: "0 < w \<Longrightarrow> 0 < L \<Longrightarrow> 0 < num_slices w L"
  using lt_num_slices_iff [of w 0 L] by simp

lemma last_slices:
  "0 < w \<Longrightarrow> s \<noteq> [] \<Longrightarrow> last (slices w s) = slice_at w s (num_slices w (length s) - 1)"
proof -
  assume w: "0 < w" and s: "s \<noteq> []"
  then have "0 < num_slices w (length s)" by (simp add: num_slices_pos)
  then obtain n where n: "num_slices w (length s) = Suc n" by (cases "num_slices w (length s)") auto
  show ?thesis by (simp add: slices_def n)
qed

lemma num_slices_pred: "0 < w \<Longrightarrow> 0 < L \<Longrightarrow> (num_slices w L - 1) * w < L"
  using lt_num_slices_iff [of w "num_slices w L - 1" L] num_slices_pos [of w L] by simp

lemma length_inner_slice:
  "0 < w \<Longrightarrow> Suc k < num_slices w (length s) \<Longrightarrow> length (slice_at w s k) = w"
proof -
  assume w: "0 < w" and k: "Suc k < num_slices w (length s)"
  then have "Suc k * w < length s" by (simp only: lt_num_slices_iff)
  then show ?thesis by (simp add: length_slice_at)
qed

lemma resplit_chunk_oversize:
  "\<not> int (length (page_content doc)) \<le> m \<Longrightarrow>
     resplit_chunk m doc = map (\<lambda>p. Document p (metadata doc)) (kept_slices (nat m) (page_content doc))"
  by (simp add: resplit_chunk_def)

text \<open>
  Claim C3. Let a chunk's text be longer than a positive limit \<open>w\<close>. Inside any chunk
  sequence the re-split step replaces the chunk by the documents of its kept slices. The
  slices are cut at the offsets \<open>0, w, 2 * w, \<dots>\<close>; there are \<open>ceil(L / w)\<close> of them
  (\<open>num_slices\<close> is the least \<open>n\<close> with \<open>L \<le> n * w\<close>); every slice but the last is
  exactly \<open>w\<close> long and the last is non-empty and at most \<open>w\<close> long; all slices
  concatenated give the text back; the kept slices are the slices that are not entirely
  whitespace, so their concatenation has the non-whitespace characters of the text, in
  order, and as many of them.
\<close>

theorem resplit_slices_lossless:
  assumes "0 < w" and "w < length (page_content doc)"
  shows "resplit_oversize_chunks (before @ doc # after) (int w)
           = Inr (concat (map (resplit_chunk (int w)) before)
                  @ map (\<lambda>p. Document p (metadata doc)) (kept_slices w (page_content doc))
                  @ concat (map (resplit_chunk (int w)) after))
       \<and> kept_slices w (page_content doc)
           = filter (\<lambda>p. \<not> list_all py_isspace p)
               (map (\<lambda>k. take w (drop (k * w) (page_content doc)))
                  [0..<num_slices w (length (page_content doc))])
       \<and> (num_slices w (length (page_content doc)) - 1) * w < length (page_content doc)
       \<and> length (page_content doc) \<le> num_slices w (length (page_content doc)) * w
       \<and> (\<forall>k. Suc k < num_slices w (length (page_content doc)) \<longrightarrow>
              length (slice_at w (page_content doc) k) = w)
       \<and> 0 < length (last (slices w (page_content doc)))
       \<and> length (last (slices w (page_content doc))) \<le> w
       \<and> concat (slices w (page_content doc)) = page_content doc
       \<and> non_whitespace (concat (kept_slices w (page_content doc)))
           = non_whitespace (page_content doc)
       \<and> sum_list (map (\<lambda>p. length (non_whitespace p)) (kept_slices w (page_content doc)))
           = length (non_whitespace (page_content doc))"
proof -
  let ?s = "page_content doc"
  have ne: "?s \<noteq> []" and pos: "0 < length ?s" using assms by auto
  have over: "\<not> int (length ?s) \<le> int w" using assms by simp
  have 1: "resplit_oversize_chunks (before @ doc # after) (int w)
           = Inr (concat (map (resplit_chunk (int w)) before)
                  @ map (\<lambda>p. Document p (metadata doc)) (kept_slices w ?s)
                  @ concat (map (resplit_chunk (int w)) after))"
    using assms(1) resplit_chunk_oversize [OF over] by (simp add: resplit_flat)
  have 2: "kept_slices w ?s = filter (\<lambda>p. \<not> list_all py_isspace p)
               (map (\<lambda>k. take w (drop (k * w) ?s)) [0..<num_slices w (length ?s)])"
    by (simp add: kept_slices_def slices_def blank_def [abs_def] slice_at_def [abs_def])
  have 3: "(num_slices w (length ?s) - 1) * w < length ?s"
    using assms(1) pos by (rule num_slices_pred)
  have 4: "length ?s \<le> num_slices w (length ?s) * w"
    using assms(1) by (rule num_slices_covers)
  have 5: "\<forall>k. Suc k < num_slices w (length ?s) \<longrightarrow> length (slice_at w ?s k) = w"
    using assms(1) by (simp add: length_inner_slice)
  have l: "last (slices w ?s) = slice_at w ?s (num_slices w (length ?s) - 1)"
    using assms(1) ne by (rule last_slices)
  have 6: "0 < length (last (slices w ?s))"
    using 3 assms(1) by (simp add: l length_slice_at)
  have 7: "length (last (slices w ?s)) \<le> w"
    by (simp add: l length_slice_at_le)
  have 8: "concat (slices w ?s) = ?s"
    using assms(1) by (rule concat_slices)
  have 9: "non_whitespace (concat (kept_slices w ?s)) = non_whitespace ?s"
    by (simp add: kept_slices_def non_whitespace_concat_kept 8)
  have 10: "sum_list (map (\<lambda>p. length (non_whitespace p)) (kept_slices w ?s))
              = length (non_whitespace ?s)"
    using 9 non_whitespace_count_concat [of "kept_slices w ?s"] by simp
  from 1 2 3 4 5 6 7 8 9 10 show ?thesis by blast
qed


theorem resplit_slices_lossless_witness:
  "(0::nat) < 3 \<and> 3 < length (page_content (text_doc ''abc   de''))
   \<and> resplit_oversize_chunks [text_doc ''abc   de''] 3 = Inr [text_doc ''abc'', text_doc ''de'']
   \<and> kept_slices 3 (page_content (text_doc ''abc   de'')) = [''abc'', ''de'']
   \<and> slices 3 (page_content (text_doc ''abc   de'')) = [''abc'', ''   '', ''de'']
   \<and> non_whitespace (concat (kept_slices 3 (page_content (text_doc ''abc   de'')))) = ''abcde''"
proof -
  have h: "(0::nat) < 3" "3 < length (page_content (text_doc ''abc   de''))"
    by (simp_all add: text_doc_def Document_def)
  have s: "slices 3 (page_content (text_doc ''abc   de'')) = [''abc'', ''   '', ''de'']"
    by (simp add: slices_def slice_at_def num_slices_def text_doc_def Document_def upt_conv_Cons)
  have n: "non_whitespace ''abc   de'' = ''abcde''"
    by (simp add: non_whitespace_def py_isspace_def)
  have k: "kept_slices 3 (page_content (text_doc ''abc   de'')) = [''abc'', ''de'']"
    by (simp add: kept_slices_def s blank_def py_isspace_def)
  have r: "resplit_oversize_chunks [text_doc ''abc   de''] (int 3)
             = Inr (map (\<lambda>p. Document p (metadata (text_doc ''abc   de'')))
                     (kept_slices 3 (page_content (text_doc ''abc   de''))))"
    using resplit_slices_lossless [OF h, of "[]" "[]", THEN conjunct1] by simp
  have nw: "non_whitespace (concat (kept_slices 3 (page_content (text_doc ''abc   de''))))
             = non_whitespace (page_content (text_doc ''abc   de''))"
    using resplit_slices_lossless [OF h, of "[]" "[]"] by blast
  have r': "resplit_oversize_chunks [text_doc ''abc   de''] 3 = Inr [text_doc ''abc'', text_doc ''de'']"
    using r by (simp add: k) (simp add: text_doc_def Document_def)
  have nw': "non_whitespace (concat (kept_slices 3 (page_content (text_doc ''abc   de'')))) = ''abcde''"
    using nw n by (simp add: text_doc_def Document_def)
  from h r' k s nw' show ?thesis by blast
qed




lemma page_content_Document: "page_content (Document p md) = p"
  by (simp add: Document_def)




section \<open>The batch embed-and-store driver\<close>

lemma store_calls_append: "store_calls (xs @ ys) = store_calls xs @ store_calls ys"
  by (simp add: store_calls_def)

lemma batch_errors_append: "batch_errors (xs @ ys) = batch_errors xs @ batch_errors ys"
  by (simp add: batch_errors_def)

lemma store_calls_simps:
  "store_calls [] = []"
  "store_calls (Call_add_documents b # evs) = b # store_calls evs"
  "store_calls (Err_batch_failed k n e # evs) = store_calls evs"
  "store_calls (Out_batch_done k n d t # evs) = store_calls evs"
  "store_calls (Out_embedding bs n # evs) = store_calls evs"
  "store_calls (Out_stored # evs) = store_calls evs"
  by (simp_all add: store_calls_def)

lemma batch_errors_simps:
  "batch_errors [] = []"
  "batch_errors (Call_add_documents b # evs) = batch_errors evs"
  "batch_errors (Err_batch_failed k n e # evs) = (k, n, e) # batch_errors evs"
  "batch_errors (Out_batch_done k n d t # evs) = batch_errors evs"
  "batch_errors (Out_embedding bs n # evs) = batch_errors evs"
  "batch_errors (Out_stored # evs) = batch_errors evs"
  by (simp_all add: batch_errors_def)

lemma batch_slice:
  "py_slice chunks (int (j * 50)) (int (j * 50) + EMBED_BATCH_SIZE) = slice_at 50 chunks j"
  using py_slice_slice_at [of chunks j 50] by (simp add: EMBED_BATCH_SIZE_def)

lemma batch_num: "int (j * 50) div EMBED_BATCH_SIZE + 1 = int j + 1"
  by (simp add: EMBED_BATCH_SIZE_def)

lemma embed_batches_step:
  "embed_batches add chunks n_total num_batches (int (j * 50) # starts) vs log =
     (case add vs (slice_at 50 chunks j) of
        Inl (Exc e) \<Rightarrow>
          (Inl (Raised (Exc e)), vs,
           log @ [Call_add_documents (slice_at 50 chunks j),
                  Err_batch_failed (int j + 1) num_batches e])
      | Inl (BaseExc e) \<Rightarrow>
          (Inl (Raised (BaseExc e)), vs, log @ [Call_add_documents (slice_at 50 chunks j)])
      | Inr vs' \<Rightarrow>
          embed_batches add chunks n_total num_batches starts vs'
            (log @ [Call_add_documents (slice_at 50 chunks j),
                    Out_batch_done (int j + 1) num_batches
                      (min (int (j * 50) + EMBED_BATCH_SIZE) n_total) n_total]))"
  by (simp only: embed_batches.simps Let_def batch_slice batch_num)

lemma embed_batches_success:
  "store_all add vs (map (slice_at 50 chunks) ks) = Inr vs' \<Longrightarrow>
     \<exists>log'. embed_batches add chunks n_total num_batches (map (\<lambda>j. int (j * 50)) ks) vs log
               = (Inr (), vs', log')
           \<and> store_calls log' = store_calls log @ map (slice_at 50 chunks) ks
           \<and> batch_errors log' = batch_errors log"
proof (induction ks arbitrary: vs log)
  case Nil
  then show ?case by simp
next
  case (Cons j ks)
  from Cons.prems obtain vs1 where
    a: "add vs (slice_at 50 chunks j) = Inr vs1"
    and r: "store_all add vs1 (map (slice_at 50 chunks) ks) = Inr vs'"
    by (auto split: sum.splits)
  let ?log1 = "log @ [Call_add_documents (slice_at 50 chunks j),
                    Out_batch_done (int j + 1) num_batches
                      (min (int (j * 50) + EMBED_BATCH_SIZE) n_total) n_total]"
  from Cons.IH [OF r, of ?log1] obtain log' where
    l: "embed_batches add chunks n_total num_batches (map (\<lambda>j. int (j * 50)) ks) vs1 ?log1
          = (Inr (), vs', log')"
      "store_calls log' = store_calls ?log1 @ map (slice_at 50 chunks) ks"
      "batch_errors log' = batch_errors ?log1"
    by blast
  have "embed_batches add chunks n_total num_batches (map (\<lambda>j. int (j * 50)) (j # ks)) vs log
          = (Inr (), vs', log')"
    by (simp only: list.map embed_batches_step a sum.case l(1))
  moreover have "store_calls log' = store_calls log @ map (slice_at 50 chunks) (j # ks)"
    by (simp add: l(2) store_calls_append store_calls_simps)
  moreover have "batch_errors log' = batch_errors log"
    by (simp add: l(3) batch_errors_append batch_errors_simps)
  ultimately show ?case by blast
qed

lemma embed_batches_raise:
  "add vs (slice_at 50 chunks j) = Inl r \<Longrightarrow>
     \<exists>log'. embed_batches add chunks n_total num_batches (int (j * 50) # starts) vs log
               = (Inl (Raised r), vs, log')
           \<and> store_calls log' = store_calls log @ [slice_at 50 chunks j]
           \<and> batch_errors log' = batch_errors log @ batch_error_lines j num_batches r"
  by (cases r)
     (simp_all only: embed_batches_step sum.case raised.case,
      simp_all add: store_calls_append batch_errors_append store_calls_simps batch_errors_simps
        batch_error_lines_def)

lemma embed_batches_failure:
  "store_all add vs (map (slice_at 50 chunks) ks1) = Inr vs_k \<Longrightarrow>
   add vs_k (slice_at 50 chunks j) = Inl r \<Longrightarrow>
     \<exists>log'. embed_batches add chunks n_total num_batches (map (\<lambda>j. int (j * 50)) (ks1 @ j # ks2)) vs log
               = (Inl (Raised r), vs_k, log')
           \<and> store_calls log' = store_calls log @ map (slice_at 50 chunks) (ks1 @ [j])
           \<and> batch_errors log' = batch_errors log @ batch_error_lines j num_batches r"
proof (induction ks1 arbitrary: vs log)
  case Nil
  then have v: "vs = vs_k" by simp
  have "add vs_k (slice_at 50 chunks j) = Inl r" using Nil.prems(2) .
  from embed_batches_raise [of add vs_k chunks j r n_total num_batches
      "map (\<lambda>j. int (j * 50)) ks2" log, OF this]
  show ?case unfolding v by (simp only: append_Nil list.map)
next
  case (Cons i ks1)
  from Cons.prems(1) obtain vs1 where
    a: "add vs (slice_at 50 chunks i) = Inr vs1"
    and r: "store_all add vs1 (map (slice_at 50 chunks) ks1) = Inr vs_k"
    by (auto split: sum.splits)
  let ?log1 = "log @ [Call_add_documents (slice_at 50 chunks i),
                    Out_batch_done (int i + 1) num_batches
                      (min (int (i * 50) + EMBED_BATCH_SIZE) n_total) n_total]"
  from Cons.IH [OF r Cons.prems(2), of ?log1] obtain log' where
    l: "embed_batches add chunks n_total num_batches
          (map (\<lambda>j. int (j * 50)) (ks1 @ j # ks2)) vs1 ?log1
          = (Inl (Raised r), vs_k, log')"
      "store_calls log' = store_calls ?log1 @ map (slice_at 50 chunks) (ks1 @ [j])"
      "batch_errors log' = batch_errors ?log1 @ batch_error_lines j num_batches r"
    by blast
  have "embed_batches add chunks n_total num_batches
          (map (\<lambda>j. int (j * 50)) ((i # ks1) @ j # ks2)) vs log
          = (Inl (Raised r), vs_k, log')"
    by (simp only: list.map append_Cons embed_batches_step a sum.case l(1))
  moreover have "store_calls log' = store_calls log @ map (slice_at 50 chunks) ((i # ks1) @ [j])"
    by (simp add: l(2) store_calls_append store_calls_simps)
  moreover have "batch_errors log' = batch_errors log @ batch_error_lines j num_batches r"
    by (simp add: l(3) batch_errors_append batch_errors_simps)
  ultimately show ?case by blast
qed

lemma embed_starts:
  "py_range 0 (int (length chunks)) EMBED_BATCH_SIZE
     = Inr (map (\<lambda>j. int (j * 50)) [0..<num_slices 50 (length chunks)])"
  using range_up_mult [of 50 0 "length chunks"]
  by (simp add: py_range_def EMBED_BATCH_SIZE_def)

lemma embed_and_store_unfold:
  "embed_and_store add chunks vs log =
     (case embed_batches add chunks (int (length chunks))
             ((int (length chunks) + EMBED_BATCH_SIZE - 1) div EMBED_BATCH_SIZE)
             (map (\<lambda>j. int (j * 50)) [0..<num_slices 50 (length chunks)]) vs
             (log @ [Out_embedding EMBED_BATCH_SIZE
                       ((int (length chunks) + EMBED_BATCH_SIZE - 1) div EMBED_BATCH_SIZE)]) of
        (Inl e, vs', log2) \<Rightarrow> (Inl e, vs', log2)
      | (Inr u, vs', log2) \<Rightarrow> (Inr (), vs', log2 @ [Out_stored]))"
  by (simp only: embed_and_store_def Let_def embed_starts sum.case)

lemma num_batches_eq:
  "(int (length chunks) + EMBED_BATCH_SIZE - 1) div EMBED_BATCH_SIZE
     = int (length (slices 50 chunks))"
  by (simp add: slices_def num_slices_def EMBED_BATCH_SIZE_def zdiv_int)

lemma slices_nonempty_bounded:
  "0 < w \<Longrightarrow> list_all (\<lambda>b. b \<noteq> [] \<and> length b \<le> w) (slices w xs)"
proof -
  assume w: "0 < w"
  have "\<And>k. k < num_slices w (length xs) \<Longrightarrow> slice_at w xs k \<noteq> []"
  proof -
    fix k assume "k < num_slices w (length xs)"
    then have "k * w < length xs" using w by (simp only: lt_num_slices_iff)
    then have "0 < length (slice_at w xs k)" using w by (simp add: length_slice_at)
    then show "slice_at w xs k \<noteq> []" by auto
  qed
  then show ?thesis
    by (auto simp: slices_def list_all_iff length_slice_at_le)
qed


lemma embed_and_store_success:
  assumes "store_all add vs (slices 50 chunks) = Inr vs'"
  shows "\<exists>log'. embed_and_store add chunks vs log = (Inr (), vs', log')
           \<and> store_calls log' = store_calls log @ slices 50 chunks
           \<and> batch_errors log' = batch_errors log"
proof -
  let ?n = "(int (length chunks) + EMBED_BATCH_SIZE - 1) div EMBED_BATCH_SIZE"
  let ?log1 = "log @ [Out_embedding EMBED_BATCH_SIZE ?n]"
  from assms have "store_all add vs (map (slice_at 50 chunks) [0..<num_slices 50 (length chunks)]) = Inr vs'"
    by (simp add: slices_def)
  from embed_batches_success [OF this, of "int (length chunks)" ?n ?log1]
  obtain log2 where
    l: "embed_batches add chunks (int (length chunks)) ?n
          (map (\<lambda>j. int (j * 50)) [0..<num_slices 50 (length chunks)]) vs ?log1 = (Inr (), vs', log2)"
      "store_calls log2 = store_calls ?log1 @ map (slice_at 50 chunks) [0..<num_slices 50 (length chunks)]"
      "batch_errors log2 = batch_errors ?log1"
    by blast
  have "embed_and_store add chunks vs log = (Inr (), vs', log2 @ [Out_stored])"
    by (simp only: embed_and_store_unfold l(1) prod.case sum.case)
  moreover have "store_calls (log2 @ [Out_stored]) = store_calls log @ slices 50 chunks"
    by (simp add: l(2) store_calls_append store_calls_simps slices_def)
  moreover have "batch_errors (log2 @ [Out_stored]) = batch_errors log"
    by (simp add: l(3) batch_errors_append batch_errors_simps)
  ultimately show ?thesis by blast
qed

lemma embed_and_store_failure:
  assumes "k < length (slices 50 chunks)"
    and "store_all add vs (take k (slices 50 chunks)) = Inr vs_k"
    and "add vs_k (slices 50 chunks ! k) = Inl r"
  shows "\<exists>log'. embed_and_store add chunks vs log = (Inl (Raised r), vs_k, log')
           \<and> store_calls log' = store_calls log @ take (Suc k) (slices 50 chunks)
           \<and> batch_errors log'
               = batch_errors log @ batch_error_lines k (int (length (slices 50 chunks))) r"
proof -
  let ?K = "num_slices 50 (length chunks)"
  let ?n = "(int (length chunks) + EMBED_BATCH_SIZE - 1) div EMBED_BATCH_SIZE"
  let ?log1 = "log @ [Out_embedding EMBED_BATCH_SIZE ?n]"
  have k: "k < ?K" using assms(1) by (simp add: slices_def)
  then have split: "[0..<?K] = [0..<k] @ k # [Suc k..<?K]"
    using upt_add_eq_append [of 0 k "?K - k"] by (simp add: upt_conv_Cons)
  have tk: "take k (slices 50 chunks) = map (slice_at 50 chunks) [0..<k]"
    using k by (simp add: slices_def take_map min_def)
  have nk: "slices 50 chunks ! k = slice_at 50 chunks k"
    using k by (simp add: slices_def)
  have tsk: "take (Suc k) (slices 50 chunks) = map (slice_at 50 chunks) ([0..<k] @ [k])"
    using k by (simp add: slices_def take_map min_def)
  from embed_batches_failure [of add vs chunks "[0..<k]" vs_k k r "int (length chunks)" ?n
      "[Suc k..<?K]" ?log1] assms(2,3)
  obtain log2 where
    l: "embed_batches add chunks (int (length chunks)) ?n
          (map (\<lambda>j. int (j * 50)) [0..<?K]) vs ?log1 = (Inl (Raised r), vs_k, log2)"
      "store_calls log2 = store_calls ?log1 @ map (slice_at 50 chunks) ([0..<k] @ [k])"
      "batch_errors log2 = batch_errors ?log1 @ batch_error_lines k ?n r"
    unfolding tk nk split by blast
  have "embed_and_store add chunks vs log = (Inl (Raised r), vs_k, log2)"
    by (simp only: embed_and_store_unfold l(1) prod.case sum.case)
  moreover have "store_calls log2 = store_calls log @ take (Suc k) (slices 50 chunks)"
    by (simp only: l(2) tsk) (simp add: store_calls_append store_calls_simps)
  moreover have "batch_errors log2
      = batch_errors log @ batch_error_lines k (int (length (slices 50 chunks))) r"
    by (simp only: l(3) num_batches_eq) (simp add: batch_errors_append batch_errors_simps)
  ultimately show ?thesis by blast
qed

lemma run_pipeline_reaches_store:
  assumes "load_all_documents E config_path = Inr docs" and "docs \<noteq> []"
    and "chunk_documents_with_language_awareness E docs
           (case chunk_size of None \<Rightarrow> EMBED_MODEL_MAX_CHARS E | Some s \<Rightarrow> s)
           (case chunk_overlap of
              None \<Rightarrow> max 50 ((case chunk_size of None \<Rightarrow> EMBED_MODEL_MAX_CHARS E | Some s \<Rightarrow> s) div 10)
            | Some v \<Rightarrow> v) = Inr chunks0"
    and "resplit_oversize_chunks chunks0 (EMBED_MODEL_MAX_CHARS E) = Inr chunks"
    and "get_vector_store E collection_name = Inr vs"
  shows "\<exists>log3. store_calls log3 = [] \<and> batch_errors log3 = []
           \<and> run_pipeline E config_path chunk_size chunk_overlap collection_name
               = (case embed_and_store (add_documents E) chunks vs log3 of
                    (r, vs', log4) \<Rightarrow> (r, Some vs', log4))"
proof -
  let ?m = "EMBED_MODEL_MAX_CHARS E"
  let ?sz = "case chunk_size of None \<Rightarrow> ?m | Some s \<Rightarrow> s"
  let ?ov = "case chunk_overlap of None \<Rightarrow> max 50 (?sz div 10) | Some v \<Rightarrow> v"
  let ?log2 = "[Out_chunking ?sz ?ov ?m, Out_loaded (int (length docs)),
                Out_split (int (length chunks0))]"
  let ?log3 = "if length chunks \<noteq> length chunks0
               then ?log2 @ [Out_resplit (int (length chunks0)) (int (length chunks)) ?m]
               else ?log2"
  have ok: "oversize chunks ?m = []"
    using assms(4) by (rule resplit_passes_check)
  have c: "store_calls ?log3 = []" and b: "batch_errors ?log3 = []"
    by (simp_all add: store_calls_def batch_errors_def)
  have r: "run_pipeline E config_path chunk_size chunk_overlap collection_name
             = (case embed_and_store (add_documents E) chunks vs ?log3 of
                  (r, vs', log4) \<Rightarrow> (r, Some vs', log4))"
    using assms ok by (simp add: run_pipeline_def Let_def)
  from c b r show ?thesis by blast
qed


lemma group_by_language_default:
  "list_all (\<lambda>d. get_language_from_metadata (metadata d) = Inr None) docs \<Longrightarrow>
     group_by_language docs [(Default, acc)] = Inr [(Default, acc @ docs)]"
  by (induction docs arbitrary: acc) simp_all

lemma chunk_documents_default:
  assumes "list_all (\<lambda>d. get_language_from_metadata (metadata d) = Inr None) docs"
    and "docs \<noteq> []"
    and "split_documents E (get_text_splitter (EMBED_MODEL_MAX_CHARS E) (Some sz) (Some ov)) docs = Inr cs"
  shows "chunk_documents_with_language_awareness E docs sz ov = Inr cs"
proof -
  obtain d ds where docs: "docs = d # ds" using assms(2) by (cases docs) auto
  have "group_by_language docs [] = Inr [(Default, docs)]"
    using assms(1) group_by_language_default [of ds "[d]"] by (simp add: docs)
  then show ?thesis
    using assms(3) by (simp add: chunk_documents_with_language_awareness_def)
qed

text \<open>
  Claim C5. Let \<open>run_pipeline\<close> get past loading, chunking, the re-split step and the
  construction of the vector store, with the re-split chunks \<open>chunks\<close> and the store \<open>vs\<close>.
  The batches are the consecutive slices of 50 chunks: there are \<open>ceil(n / 50)\<close> of them,
  none is empty or longer than 50, and concatenated in order they give the chunk sequence
  back. When the store accepts every batch, \<open>run_pipeline\<close> calls \<open>add_documents\<close> with
  exactly these batches, once each and in order, writes no error line and returns. When
  the store accepts the first \<open>k\<close> batches and raises an \<open>Exception\<close> on the next one, the
  calls made are exactly the first \<open>k + 1\<close> batches, the one error line carries the batch
  number \<open>k + 1\<close>, the number of batches and the exception's text, the exception is passed
  on, and the store is left as the \<open>k\<close> accepted batches made it. An exception that is not
  an \<open>Exception\<close> (\<open>KeyboardInterrupt\<close>) stops the run in the same way, but the handler
  does not catch it and no error line is written.
\<close>

theorem run_pipeline_batches:
  assumes "load_all_documents E config_path = Inr docs" and "docs \<noteq> []"
    and "chunk_documents_with_language_awareness E docs
           (case chunk_size of None \<Rightarrow> EMBED_MODEL_MAX_CHARS E | Some s \<Rightarrow> s)
           (case chunk_overlap of
              None \<Rightarrow> max 50 ((case chunk_size of None \<Rightarrow> EMBED_MODEL_MAX_CHARS E | Some s \<Rightarrow> s) div 10)
            | Some v \<Rightarrow> v) = Inr chunks0"
    and "resplit_oversize_chunks chunks0 (EMBED_MODEL_MAX_CHARS E) = Inr chunks"
    and "get_vector_store E collection_name = Inr vs"
  shows "slices 50 chunks
           = map (\<lambda>k. take 50 (drop (k * 50) chunks)) [0..<(length chunks + 49) div 50]
       \<and> concat (slices 50 chunks) = chunks
       \<and> list_all (\<lambda>b. b \<noteq> [] \<and> length b \<le> 50) (slices 50 chunks)
       \<and> (store_all (add_documents E) vs (slices 50 chunks) = Inr vs' \<longrightarrow>
            (\<exists>log. run_pipeline E config_path chunk_size chunk_overlap collection_name
                      = (Inr (), Some vs', log)
               \<and> store_calls log = slices 50 chunks
               \<and> batch_errors log = []))
       \<and> (k < length (slices 50 chunks)
            \<and> store_all (add_documents E) vs (take k (slices 50 chunks)) = Inr vs_k
            \<and> add_documents E vs_k (slices 50 chunks ! k) = Inl (Exc e) \<longrightarrow>
            (\<exists>log. run_pipeline E config_path chunk_size chunk_overlap collection_name
                      = (Inl (Raised (Exc e)), Some vs_k, log)
               \<and> store_calls log = take (Suc k) (slices 50 chunks)
               \<and> batch_errors log = [(int k + 1, int (length (slices 50 chunks)), e)]))
       \<and> (k < length (slices 50 chunks)
            \<and> store_all (add_documents E) vs (take k (slices 50 chunks)) = Inr vs_k
            \<and> add_documents E vs_k (slices 50 chunks ! k) = Inl (BaseExc e) \<longrightarrow>
            (\<exists>log. run_pipeline E config_path chunk_size chunk_overlap collection_name
                      = (Inl (Raised (BaseExc e)), Some vs_k, log)
               \<and> store_calls log = take (Suc k) (slices 50 chunks)
               \<and> batch_errors log = []))"
proof -
  from run_pipeline_reaches_store [OF assms] obtain log3 where
    c: "store_calls log3 = []" and b: "batch_errors log3 = []"
    and r: "run_pipeline E config_path chunk_size chunk_overlap collection_name
              = (case embed_and_store (add_documents E) chunks vs log3 of
                   (r, vs', log4) \<Rightarrow> (r, Some vs', log4))"
    by blast
  have 1: "slices 50 chunks
     = map (\<lambda>k. take 50 (drop (k * 50) chunks)) [0..<(length chunks + 49) div 50]"
    by (simp add: slices_def slice_at_def [abs_def] num_slices_def add.commute)
  have 2: "concat (slices 50 chunks) = chunks"
    by (simp add: concat_slices)
  have 3: "list_all (\<lambda>b. b \<noteq> [] \<and> length b \<le> 50) (slices 50 chunks)"
    by (simp add: slices_nonempty_bounded)
  have 4: "store_all (add_documents E) vs (slices 50 chunks) = Inr vs' \<longrightarrow>
            (\<exists>log. run_pipeline E config_path chunk_size chunk_overlap collection_name
                      = (Inr (), Some vs', log)
               \<and> store_calls log = slices 50 chunks
               \<and> batch_errors log = [])"
  proof
    assume "store_all (add_documents E) vs (slices 50 chunks) = Inr vs'"
    from embed_and_store_success [OF this, of log3] obtain log' where
      "embed_and_store (add_documents E) chunks vs log3 = (Inr (), vs', log')"
      "store_calls log' = store_calls log3 @ slices 50 chunks"
      "batch_errors log' = batch_errors log3"
      by blast
    then show "\<exists>log. run_pipeline E config_path chunk_size chunk_overlap collection_name
                      = (Inr (), Some vs', log)
               \<and> store_calls log = slices 50 chunks
               \<and> batch_errors log = []"
      by (simp add: r c b)
  qed
  have f: "\<exists>log. run_pipeline E config_path chunk_size chunk_overlap collection_name
                      = (Inl (Raised x), Some vs_k, log)
               \<and> store_calls log = take (Suc k) (slices 50 chunks)
               \<and> batch_errors log = batch_error_lines k (int (length (slices 50 chunks))) x"
    if "k < length (slices 50 chunks)"
      and "store_all (add_documents E) vs (take k (slices 50 chunks)) = Inr vs_k"
      and "add_documents E vs_k (slices 50 chunks ! k) = Inl x" for x
  proof -
    from embed_and_store_failure [OF that, of log3] obtain log' where
      "embed_and_store (add_documents E) chunks vs log3 = (Inl (Raised x), vs_k, log')"
      "store_calls log' = store_calls log3 @ take (Suc k) (slices 50 chunks)"
      "batch_errors log'
         = batch_errors log3 @ batch_error_lines k (int (length (slices 50 chunks))) x"
      by blast
    then show ?thesis by (simp add: r c b)
  qed
  have 5: "k < length (slices 50 chunks)
            \<and> store_all (add_documents E) vs (take k (slices 50 chunks)) = Inr vs_k
            \<and> add_documents E vs_k (slices 50 chunks ! k) = Inl (Exc e) \<longrightarrow>
            (\<exists>log. run_pipeline E config_path chunk_size chunk_overlap collection_name
                      = (Inl (Raised (Exc e)), Some vs_k, log)
               \<and> store_calls log = take (Suc k) (slices 50 chunks)
               \<and> batch_errors log = [(int k + 1, int (length (slices 50 chunks)), e)])"
    using f [of "Exc e"] by (simp add: batch_error_lines_def)
  have 6: "k < length (slices 50 chunks)
            \<and> store_all (add_documents E) vs (take k (slices 50 chunks)) = Inr vs_k
            \<and> add_documents E vs_k (slices 50 chunks ! k) = Inl (BaseExc e) \<longrightarrow>
            (\<exists>log. run_pipeline E config_path chunk_size chunk_overlap collection_name
                      = (Inl (Raised (BaseExc e)), Some vs_k, log)
               \<and> store_calls log = take (Suc k) (slices 50 chunks)
               \<and> batch_errors log = [])"
    using f [of "BaseExc e"] by (simp add: batch_error_lines_def)
  from 1 2 3 4 5 6 show ?thesis by blast
qed

lemma slices_120:
  "slices 50 (replicate 120 d) = [replicate 50 d, replicate 50 d, replicate 20 d]"
  by (simp add: slices_def slice_at_def num_slices_def upt_conv_Cons)


lemma example_env_with_fields:
  "EMBED_MODEL_MAX_CHARS (example_env_with store) = 500"
  "load_all_documents (example_env_with store) cfg = Inr example_chunks"
  "split_documents (example_env_with store) sp ds = Inr ds"
  "get_vector_store (example_env_with store) coll = Inr []"
  "add_documents (example_env_with store) = store"
  by (simp_all add: example_env_with_def example_env_def)

lemma example_chunks_facts:
  "example_chunks \<noteq> []"
  "chunk_documents_with_language_awareness (example_env_with store) example_chunks 500 50
     = Inr example_chunks"
  "resplit_oversize_chunks example_chunks 500 = Inr example_chunks"
  "slices 50 example_chunks
     = [replicate 50 (text_doc ''x''), replicate 50 (text_doc ''x''), replicate 20 (text_doc ''x'')]"
proof -
  show ne: "example_chunks \<noteq> []" by (simp add: example_chunks_def)
  have l: "get_language_from_metadata (metadata (text_doc ''x'')) = Inr None"
    by (simp add: text_doc_def Document_def) code_simp
  have "list_all (\<lambda>d. get_language_from_metadata (metadata d) = Inr None) example_chunks"
    by (simp add: example_chunks_def list_all_iff l)
  then show "chunk_documents_with_language_awareness (example_env_with store) example_chunks 500 50
     = Inr example_chunks"
    using ne by (rule chunk_documents_default) (simp add: example_env_with_fields)
  have "list_all (compliant 500) example_chunks"
    by (simp add: example_chunks_def list_all_iff compliant_def text_doc_def Document_def)
  then show "resplit_oversize_chunks example_chunks 500 = Inr example_chunks"
    by (simp add: resplit_oversize_chunks_def resplit_compliant_loop)
  show "slices 50 example_chunks
     = [replicate 50 (text_doc ''x''), replicate 50 (text_doc ''x''), replicate 20 (text_doc ''x'')]"
    by (simp add: example_chunks_def slices_120)
qed

theorem run_pipeline_batches_witness:
  "load_all_documents (example_env_with failing_store) ''config'' = Inr example_chunks
   \<and> example_chunks \<noteq> []
   \<and> chunk_documents_with_language_awareness (example_env_with failing_store) example_chunks
        500 50 = Inr example_chunks
   \<and> resplit_oversize_chunks example_chunks 500 = Inr example_chunks
   \<and> get_vector_store (example_env_with failing_store) ''kb'' = Inr []
   \<and> store_all (\<lambda>vs batch. Inr (vs @ batch)) [] (slices 50 example_chunks) = Inr example_chunks
   \<and> (\<exists>log. run_pipeline (example_env_with (\<lambda>vs batch. Inr (vs @ batch))) ''config'' None None ''kb''
               = (Inr (), Some example_chunks, log)
          \<and> store_calls log = [replicate 50 (text_doc ''x''), replicate 50 (text_doc ''x''),
                                replicate 20 (text_doc ''x'')]
          \<and> batch_errors log = [])
   \<and> 1 < length (slices 50 example_chunks)
   \<and> store_all failing_store [] (take 1 (slices 50 example_chunks))
        = Inr (replicate 50 (text_doc ''x''))
   \<and> failing_store (replicate 50 (text_doc ''x'')) (slices 50 example_chunks ! 1)
        = Inl (Exc ''connection refused'')
   \<and> (\<exists>log. run_pipeline (example_env_with failing_store) ''config'' None None ''kb''
               = (Inl (Raised (Exc ''connection refused'')), Some (replicate 50 (text_doc ''x'')), log)
          \<and> store_calls log = [replicate 50 (text_doc ''x''), replicate 50 (text_doc ''x'')]
          \<and> batch_errors log = [(2, 3, ''connection refused'')])
   \<and> interrupted_store (replicate 50 (text_doc ''x'')) (slices 50 example_chunks ! 1)
        = Inl (BaseExc ''KeyboardInterrupt'')
   \<and> (\<exists>log. run_pipeline (example_env_with interrupted_store) ''config'' None None ''kb''
               = (Inl (Raised (BaseExc ''KeyboardInterrupt'')), Some (replicate 50 (text_doc ''x'')), log)
          \<and> store_calls log = [replicate 50 (text_doc ''x''), replicate 50 (text_doc ''x'')]
          \<and> batch_errors log = [])"
proof -
  let ?d = "text_doc ''x''"
  let ?ok = "\<lambda>vs batch. Inr (vs @ batch) :: raised + document list"
  note sl = example_chunks_facts(4)
  have hyps:
    "load_all_documents (example_env_with store) ''config'' = Inr example_chunks"
    "example_chunks \<noteq> []"
    "chunk_documents_with_language_awareness (example_env_with store) example_chunks
       (case None of None \<Rightarrow> EMBED_MODEL_MAX_CHARS (example_env_with store) | Some s \<Rightarrow> s)
       (case None of
          None \<Rightarrow> max 50 ((case None of None \<Rightarrow> EMBED_MODEL_MAX_CHARS (example_env_with store)
                             | Some s \<Rightarrow> s) div 10)
        | Some v \<Rightarrow> v) = Inr example_chunks"
    "resplit_oversize_chunks example_chunks (EMBED_MODEL_MAX_CHARS (example_env_with store))
       = Inr example_chunks"
    "get_vector_store (example_env_with store) ''kb'' = Inr []" for store
    by (simp_all add: example_env_with_fields example_chunks_facts)
  have r: "replicate 50 ?d @ replicate 50 ?d @ replicate 20 ?d = example_chunks"
    by (simp add: example_chunks_def replicate_add [symmetric])
  have a: "store_all ?ok [] (slices 50 example_chunks) = Inr example_chunks"
    by (simp add: sl r)
  have b: "1 < length (slices 50 example_chunks)"
    by (simp add: sl)
  have c: "store_all failing_store [] (take 1 (slices 50 example_chunks)) = Inr (replicate 50 ?d)"
    by (simp add: sl failing_store_def)
  have c': "store_all interrupted_store [] (take 1 (slices 50 example_chunks)) = Inr (replicate 50 ?d)"
    by (simp add: sl interrupted_store_def)
  have d: "failing_store (replicate 50 ?d) (slices 50 example_chunks ! 1) = Inl (Exc ''connection refused'')"
    by (simp add: failing_store_def)
  have d': "interrupted_store (replicate 50 ?d) (slices 50 example_chunks ! 1)
              = Inl (BaseExc ''KeyboardInterrupt'')"
    by (simp add: interrupted_store_def)
  have s: "\<exists>log. run_pipeline (example_env_with ?ok) ''config'' None None ''kb''
               = (Inr (), Some example_chunks, log)
          \<and> store_calls log = [replicate 50 ?d, replicate 50 ?d, replicate 20 ?d]
          \<and> batch_errors log = []"
    using run_pipeline_batches [where E = "example_env_with ?ok" and vs' = example_chunks,
        OF hyps,
        THEN conjunct2, THEN conjunct2, THEN conjunct2, THEN conjunct1, rule_format] a
    by (simp add: example_env_with_fields sl)
  have f: "\<exists>log. run_pipeline (example_env_with failing_store) ''config'' None None ''kb''
               = (Inl (Raised (Exc ''connection refused'')), Some (replicate 50 ?d), log)
          \<and> store_calls log = [replicate 50 ?d, replicate 50 ?d]
          \<and> batch_errors log = [(2, 3, ''connection refused'')]"
    using run_pipeline_batches [where E = "example_env_with failing_store" and k = 1
        and vs_k = "replicate 50 ?d" and e = "''connection refused''", OF hyps,
        THEN conjunct2, THEN conjunct2, THEN conjunct2, THEN conjunct2, THEN conjunct1,
        rule_format] b c d
    by (simp add: example_env_with_fields sl)
  have i: "\<exists>log. run_pipeline (example_env_with interrupted_store) ''config'' None None ''kb''
               = (Inl (Raised (BaseExc ''KeyboardInterrupt'')), Some (replicate 50 ?d), log)
          \<and> store_calls log = [replicate 50 ?d, replicate 50 ?d]
          \<and> batch_errors log = []"
    using run_pipeline_batches [where E = "example_env_with interrupted_store" and k = 1
        and vs_k = "replicate 50 ?d" and e = "''KeyboardInterrupt''", OF hyps,
        THEN conjunct2, THEN conjunct2, THEN conjunct2, THEN conjunct2, THEN conjunct2,
        rule_format] b c' d'
    by (simp add: example_env_with_fields sl)
  have h1: "load_all_documents (example_env_with failing_store) ''config'' = Inr example_chunks"
    and h3: "chunk_documents_with_language_awareness (example_env_with failing_store) example_chunks
        500 50 = Inr example_chunks"
    and h5: "get_vector_store (example_env_with failing_store) ''kb'' = Inr []"
    by (simp_all add: example_env_with_fields example_chunks_facts)
  from h1 example_chunks_facts(1) h3 example_chunks_facts(3) h5 a s b c d f d' i
  show ?thesis by blast
qed


section \<open>The language classifier\<close>

lemma takeWhile_snoc:
  "takeWhile P (xs @ [c]) = (if list_all P xs then (if P c then xs @ [c] else xs) else takeWhile P xs)"
  by (induction xs) auto

lemma after_last_Cons:
  "after_last sep (c # cs) =
     (if sep \<in> set cs then after_last sep cs else if c = sep then cs else c # cs)"
proof -
  have "list_all (\<lambda>c. c \<noteq> sep) (rev cs) \<longleftrightarrow> sep \<notin> set cs"
    by (auto simp: list_all_iff)
  then show ?thesis
    by (auto simp: after_last_def takeWhile_snoc)
qed

lemma split_last_None: "split_last sep s = None \<longleftrightarrow> sep \<notin> set s"
  by (induction s) (auto split: option.splits)

lemma split_last_Some: "split_last sep s = Some (a, b) \<Longrightarrow> b = after_last sep s"
proof (induction s arbitrary: a b)
  case Nil
  then show ?case by simp
next
  case (Cons c cs)
  show ?case
  proof (cases "split_last sep cs")
    case None
    then have "sep \<notin> set cs" by (simp add: split_last_None)
    with None Cons.prems show ?thesis
      by (auto simp: after_last_Cons split: if_splits)
  next
    case (Some p)
    obtain a' b' where p: "p = (a', b')" by (cases p)
    have "sep \<in> set cs" using Some split_last_None [of sep cs] by auto
    with Some p Cons show ?thesis
      by (auto simp: after_last_Cons)
  qed
qed

lemma after_last_absent: "sep \<notin> set s \<Longrightarrow> after_last sep s = s"
proof -
  assume "sep \<notin> set s"
  then have t: "takeWhile (\<lambda>c. c \<noteq> sep) (rev s) = rev s"
    by (auto simp: takeWhile_eq_all_conv)
  show ?thesis unfolding after_last_def t by (rule rev_rev_ident)
qed

lemma last_item_rsplit: "last_item (py_rsplit1 sep s) = Inr (after_last sep s)"
proof (cases "split_last sep s")
  case None
  then have "sep \<notin> set s" by (simp add: split_last_None)
  with None show ?thesis
    by (simp add: py_rsplit1_def last_item_def after_last_absent)
next
  case (Some p)
  obtain a b where "p = (a, b)" by (cases p)
  with Some show ?thesis
    using split_last_Some [of sep s a b] by (simp add: py_rsplit1_def last_item_def)
qed

lemma py_split_nonempty: "py_split sep s \<noteq> []"
  by (induction s) (auto split: list.splits)

lemma first_item_split: "first_item (py_split sep s) = Inr (takeWhile (\<lambda>c. c \<noteq> sep) s)"
proof (induction s)
  case Nil
  show ?case by (simp add: first_item_def)
next
  case (Cons c cs)
  then show ?case
    using py_split_nonempty [of sep cs]
    by (auto simp: first_item_def split: list.splits)
qed

lemma takeWhile_twice:
  "takeWhile (\<lambda>c. c \<noteq> b) (takeWhile (\<lambda>c. c \<noteq> a) s) = takeWhile (\<lambda>c. c \<noteq> a \<and> c \<noteq> b) s"
  by (induction s) auto

lemma ext_from_source_eq:
  "ext_from_source source
     = Inr (''.'' @ py_lower (cut_at_path_or_query (after_last (CHR ''.'') source)))"
  by (simp add: ext_from_source_def last_item_rsplit first_item_split takeWhile_twice
        cut_at_path_or_query_def)

lemma strip_or_empty:
  "strip_method (or_empty v) = (if str_or_falsy v then Inr (py_strip (text_of v)) else Inl AttributeError)"
  by (cases v) (auto simp: or_empty_def py_strip_def)

lemma EXT_TO_LANGUAGE_eq: "EXT_TO_LANGUAGE ext = language_of_extension ext"
  by (simp add: EXT_TO_LANGUAGE_def language_of_extension_def)

lemma language_of_extension_Nil: "language_of_extension [] = None"
  by (simp add: language_of_extension_def)

text \<open>
  Claim C8, as amended. When the values of \<open>file_extension\<close> and \<open>source\<close> are strings,
  \<open>None\<close> or otherwise falsy (a missing key counts as \<open>None\<close>), the classifier returns,
  and what it returns is \<open>classified_language\<close>: the \<open>file_extension\<close>, stripped and
  lower-cased, decides when it is non-empty after stripping; otherwise the stripped
  \<open>source\<close> decides, through the text after its last dot, cut at the first slash or
  question mark and lower-cased; \<open>.md\<close> and \<open>.markdown\<close> give Markdown, \<open>.rst\<close> gives RST,
  anything else \<open>None\<close>.
\<close>

theorem get_language_from_metadata_classifies:
  "str_or_falsy (dict_get md ''file_extension'') \<Longrightarrow> str_or_falsy (dict_get md ''source'') \<Longrightarrow>
     get_language_from_metadata md = Inr (classified_language md)"
  by (simp add: get_language_from_metadata_def extension_of_def strip_or_empty Let_def
        ext_from_source_eq classified_language_def language_from_source_def
        EXT_TO_LANGUAGE_eq)

theorem get_language_from_metadata_classifies_witness:
  "str_or_falsy (dict_get [''source'' \<mapsto> PStr ''https://host/o/r/README.MD?raw=1 ''] ''file_extension'')
   \<and> str_or_falsy (dict_get [''source'' \<mapsto> PStr ''https://host/o/r/README.MD?raw=1 ''] ''source'')
   \<and> get_language_from_metadata [''source'' \<mapsto> PStr ''https://host/o/r/README.MD?raw=1 '']
        = Inr (Some MARKDOWN)"
proof -
  let ?md = "[''source'' \<mapsto> PStr ''https://host/o/r/README.MD?raw=1 '']"
  have a: "str_or_falsy (dict_get ?md ''file_extension'')"
    and b: "str_or_falsy (dict_get ?md ''source'')"
    by (simp_all add: dict_get_def)
  have c: "classified_language ?md = Some MARKDOWN"
    by code_simp
  from get_language_from_metadata_classifies [OF a b] a b c
  show ?thesis by simp
qed


text \<open>
  The classifier is not \<open>claimed_language\<close>, and it can raise: a whitespace-only
  \<open>file_extension\<close> is present and non-empty and yet the \<open>source\<close> decides; an upper-case
  \<open>file_extension\<close> is lower-cased before the lookup; a number as \<open>file_extension\<close> has no
  \<open>strip\<close> method.
\<close>

theorem get_language_from_metadata_counterexample:
  "get_language_from_metadata [''file_extension'' \<mapsto> PStr ''  '', ''source'' \<mapsto> PStr ''a.md'']
     = Inr (Some MARKDOWN)
   \<and> claimed_language [''file_extension'' \<mapsto> PStr ''  '', ''source'' \<mapsto> PStr ''a.md''] = None
   \<and> get_language_from_metadata [''file_extension'' \<mapsto> PStr ''.MD''] = Inr (Some MARKDOWN)
   \<and> claimed_language [''file_extension'' \<mapsto> PStr ''.MD''] = None
   \<and> get_language_from_metadata [''file_extension'' \<mapsto> PInt 5] = Inl AttributeError"
  by code_simp

section \<open>The pipeline on an empty document sequence\<close>

text \<open>
  Claim C9. When the loaders return no document, \<open>run_pipeline\<close> returns normally,
  without building a vector store and without any call of \<open>add_documents\<close>; and the chunk
  builder applied to no document gives no chunk (the splitter is never called), which the
  re-split step and the invariant check leave as it is.
\<close>

theorem run_pipeline_empty_documents:
  "load_all_documents E config_path = Inr [] \<Longrightarrow>
     (\<exists>log. run_pipeline E config_path chunk_size chunk_overlap collection_name = (Inr (), None, log)
         \<and> store_calls log = [] \<and> batch_errors log = [])
     \<and> chunk_documents_with_language_awareness E [] sz ov = Inr []
     \<and> resplit_oversize_chunks [] max_chars = Inr []
     \<and> oversize [] max_chars = []"
  by (simp add: run_pipeline_def Let_def store_calls_def batch_errors_def
        chunk_documents_with_language_awareness_def resplit_oversize_chunks_def oversize_def)

theorem run_pipeline_empty_documents_witness:
  "load_all_documents (example_env 500 []) ''config/doc_sources.yaml'' = Inr []
   \<and> (\<exists>log. run_pipeline (example_env 500 []) ''config/doc_sources.yaml'' None None ''kb''
               = (Inr (), None, log)
         \<and> store_calls log = [] \<and> batch_errors log = [])"
proof -
  have h: "load_all_documents (example_env 500 []) ''config/doc_sources.yaml'' = Inr []"
    by (simp add: example_env_def)
  from run_pipeline_empty_documents [OF h, of None None "''kb''"] h
  show ?thesis by blast
qed


section \<open>A long Markdown line\<close>

lemma slices_1200:
  "slices 500 (replicate 1200 c) = [replicate 500 c, replicate 500 c, replicate 200 c]"
  by (simp add: slices_def slice_at_def num_slices_def upt_conv_Cons)

lemma blank_replicate: "\<not> py_isspace c \<Longrightarrow> 0 < n \<Longrightarrow> \<not> blank (replicate n c)"
  by (cases n) (simp_all add: blank_def)

text \<open>
  The scenario of a Markdown document whose body is a run of 1200 characters without
  whitespace, with a limit and chunk size of 500 (overlap \<open>max 50 (500 div 10) = 50\<close>). The
  per-group splitting step is one call of the library's Markdown splitter on the document;
  what that call returns is the library's business. If it returns the body as one chunk,
  the re-split step cuts it into chunks of 500, 500 and 200 characters and the invariant
  check finds nothing.
\<close>

lemma markdown_run_after_split:
  assumes "\<not> py_isspace c"
    and "split_documents E (Language_splitter MARKDOWN 500 50) [md_doc (replicate 1200 c)]
           = Inr [md_doc (replicate 1200 c)]"
  shows "chunk_documents_with_language_awareness E [md_doc (replicate 1200 c)] 500 50
           = Inr [md_doc (replicate 1200 c)]"
    and "resplit_oversize_chunks [md_doc (replicate 1200 c)] 500
           = Inr [md_doc (replicate 500 c), md_doc (replicate 500 c), md_doc (replicate 200 c)]"
    and "oversize [md_doc (replicate 500 c), md_doc (replicate 500 c), md_doc (replicate 200 c)] 500 = []"
proof -
  have lang: "get_language_from_metadata (metadata (md_doc (replicate 1200 c))) = Inr (Some MARKDOWN)"
    by (simp add: md_doc_def Document_def) code_simp
  show "chunk_documents_with_language_awareness E [md_doc (replicate 1200 c)] 500 50
           = Inr [md_doc (replicate 1200 c)]"
    using assms(2)
    by (simp add: chunk_documents_with_language_awareness_def lang
          get_text_splitter_for_language_def)
  have k: "kept_slices 500 (replicate 1200 c) = [replicate 500 c, replicate 500 c, replicate 200 c]"
    using assms(1) by (simp add: kept_slices_def slices_1200 blank_replicate)
  have "resplit_oversize_chunks [md_doc (replicate 1200 c)] 500
          = Inr (resplit_chunk 500 (md_doc (replicate 1200 c)))"
    using resplit_flat [of 500 "[md_doc (replicate 1200 c)]"] by simp
  then show "resplit_oversize_chunks [md_doc (replicate 1200 c)] 500
           = Inr [md_doc (replicate 500 c), md_doc (replicate 500 c), md_doc (replicate 200 c)]"
    by (simp add: resplit_chunk_def md_doc_def Document_def k)
  show "oversize [md_doc (replicate 500 c), md_doc (replicate 500 c), md_doc (replicate 200 c)] 500 = []"
    by (simp add: oversize_empty_iff compliant_def md_doc_def Document_def)
qed


end
